theory Spec2Isabelle
  imports Complex_Main
begin

section \<open>Python strings\<close>

text \<open>
  The program is \<^verbatim>\<open>plugin/claude-code/scripts/subagent_stop.py\<close>.  A Python \<^verbatim>\<open>str\<close> is
  modelled as a \<^typ>\<open>string\<close>: one \<^typ>\<open>char\<close> per code point, so the model covers the
  texts whose code points are below 256.  On that range the character classes below are
  the ones of \<^verbatim>\<open>str.isspace\<close> (the code points 9 to 13, 28 to 32, 133 and 160), of \<^verbatim>\<open>\s\<close>
  and \<^verbatim>\<open>\d\<close> in a \<^verbatim>\<open>str\<close> pattern, and of case-insensitive matching against the
  ASCII letters of the program's patterns.
\<close>

definition isspace :: "char \<Rightarrow> bool" where
  "isspace c = (c \<in> set [CHR 0x09, CHR 0x0A, CHR 0x0B, CHR 0x0C, CHR 0x0D, CHR 0x1C, CHR 0x1D,
                           CHR 0x1E, CHR 0x1F, CHR 0x20, CHR 0x85, CHR 0xA0])"

definition isdigit :: "char \<Rightarrow> bool" where
  "isdigit c = (c \<in> set ''0123456789'')"

definition lower :: "char \<Rightarrow> char" where
  "lower c = (case map_of (zip ''ABCDEFGHIJKLMNOPQRSTUVWXYZ'' ''abcdefghijklmnopqrstuvwxyz'') c of
                Some l \<Rightarrow> l
              | None \<Rightarrow> c)"

text \<open>\<^verbatim>\<open>s.strip()\<close>, \<^verbatim>\<open>s.split()\<close>, \<^verbatim>\<open>sep.join(xs)\<close>, \<^verbatim>\<open>s.startswith(p)\<close>.\<close>

definition strip :: "string \<Rightarrow> string" where
  "strip s = rev (dropWhile isspace (rev (dropWhile isspace s)))"

fun split_acc :: "string \<Rightarrow> string \<Rightarrow> string list" where
  "split_acc w [] = (if w = [] then [] else [w])"
| "split_acc w (c # cs) =
     (if isspace c then (if w = [] then split_acc [] cs else w # split_acc [] cs)
      else split_acc (w @ [c]) cs)"

definition split :: "string \<Rightarrow> string list" where
  "split s = split_acc [] s"

fun join :: "string \<Rightarrow> string list \<Rightarrow> string" where
  "join sep [] = []"
| "join sep [x] = x"
| "join sep (x # y # ys) = x @ sep @ join sep (y # ys)"

definition startswith :: "string \<Rightarrow> string \<Rightarrow> bool" where
  "startswith s p = (take (length p) s = p)"

text \<open>
  \<^verbatim>\<open>s.replace(old, new)\<close> for a non-empty \<^verbatim>\<open>old\<close> (the program's only call has
  \<^verbatim>\<open>old = "\\n"\<close>, a backslash and the letter n): occurrences are replaced from the left,
  without overlap.
\<close>

function replace :: "string \<Rightarrow> string \<Rightarrow> string \<Rightarrow> string" where
  "replace old new [] = []"
| "replace old new (c # cs) =
     (if old \<noteq> [] \<and> startswith (c # cs) old
      then new @ replace old new (drop (length old) (c # cs))
      else c # replace old new cs)"
  by pat_completeness auto
termination
  by (relation "measure (\<lambda>(old, new, s). length s)") auto

section \<open>The regular expressions of the program\<close>

text \<open>
  Python's \<^verbatim>\<open>re\<close> is a backtracking matcher: of all the ways a pattern matches at a
  position it takes the first in priority order (a greedy repetition tries the longest
  run first, a lazy one the shortest, an alternation its left branch first).  The model
  computes, for a pattern and a position, the list of all matches in that priority
  order; the head of the list is the match Python reports.

  Every repetition of the program's patterns is over a single character class, so
  \<open>Rep\<close> repeats a class: \<open>Rep greedy lo hi a\<close> is \<^verbatim>\<open>a{lo,hi}\<close>, with \<open>hi = None\<close>
  for no upper bound, and lazy when \<open>greedy\<close> is false.
\<close>

datatype cclass = Lit char | Space | Digit | Dot | OneOf string | NoneOf string

datatype flags = Flags (ignorecase: bool) (multiline: bool) (dotall: bool)

datatype rx =
    Eps
  | Atom cclass
  | Rep bool nat "nat option" cclass
  | Seq rx rx
  | Alt rx rx
  | Bol
  | Eol
  | EndZ
  | Look rx
  | Grp rx

text \<open>
  A position in the subject string: the character before it (\<open>None\<close> at the start), the
  text from it on, and what capture group 1 holds.
\<close>

datatype mstate = MState (prev: "char option") (rest: string) (grp: "string option")

fun in_class :: "flags \<Rightarrow> cclass \<Rightarrow> char \<Rightarrow> bool" where
  "in_class fl (Lit p) c = (if ignorecase fl then lower c = lower p else c = p)"
| "in_class fl Space c = isspace c"
| "in_class fl Digit c = isdigit c"
| "in_class fl Dot c = (dotall fl \<or> c \<noteq> CHR 0x0A)"
| "in_class fl (OneOf cs) c =
     (if ignorecase fl then lower c \<in> set (map lower cs) else c \<in> set cs)"
| "in_class fl (NoneOf cs) c =
     (if ignorecase fl then lower c \<notin> set (map lower cs) else c \<notin> set cs)"

definition advance :: "nat \<Rightarrow> mstate \<Rightarrow> mstate" where
  "advance k st =
     (if k = 0 then st else MState (Some (rest st ! (k - 1))) (drop k (rest st)) (grp st))"

definition rep_counts :: "bool \<Rightarrow> nat \<Rightarrow> nat option \<Rightarrow> nat \<Rightarrow> nat list" where
  "rep_counts greedy lo hi n =
     (let top = (case hi of None \<Rightarrow> n | Some h \<Rightarrow> min h n);
          ks = [lo ..< Suc top]
      in if greedy then rev ks else ks)"

fun ms :: "flags \<Rightarrow> rx \<Rightarrow> mstate \<Rightarrow> mstate list" where
  "ms fl Eps st = [st]"
| "ms fl (Atom a) st =
     (case rest st of
        [] \<Rightarrow> []
      | c # cs \<Rightarrow> if in_class fl a c then [MState (Some c) cs (grp st)] else [])"
| "ms fl (Rep greedy lo hi a) st =
     map (\<lambda>k. advance k st)
       (rep_counts greedy lo hi (length (takeWhile (in_class fl a) (rest st))))"
| "ms fl (Seq r1 r2) st = concat (map (\<lambda>e. ms fl r2 e) (ms fl r1 st))"
| "ms fl (Alt r1 r2) st = ms fl r1 st @ ms fl r2 st"
| "ms fl Bol st =
     (if prev st = None \<or> (multiline fl \<and> prev st = Some (CHR 0x0A)) then [st] else [])"
| "ms fl Eol st =
     (if rest st = [] \<or> rest st = [CHR 0x0A]
         \<or> (multiline fl \<and> take 1 (rest st) = [CHR 0x0A])
      then [st] else [])"
| "ms fl EndZ st = (if rest st = [] then [st] else [])"
| "ms fl (Look r) st = (if ms fl r st = [] then [] else [st])"
| "ms fl (Grp r) st =
     map (\<lambda>e. MState (prev e) (rest e)
                 (Some (take (length (rest st) - length (rest e)) (rest st))))
       (ms fl r st)"

text \<open>
  \<^verbatim>\<open>re.search\<close>: the first position, from the left, where the pattern matches.  The
  result is the text before the match (\<^verbatim>\<open>s[:m.start()]\<close>) and the position at its end.
\<close>

fun search_from :: "flags \<Rightarrow> rx \<Rightarrow> string \<Rightarrow> char option \<Rightarrow> string \<Rightarrow> (string \<times> mstate) option" where
  "search_from fl r pre p [] =
     (case ms fl r (MState p [] None) of e # _ \<Rightarrow> Some (pre, e) | [] \<Rightarrow> None)"
| "search_from fl r pre p (c # cs) =
     (case ms fl r (MState p (c # cs) None) of
        e # _ \<Rightarrow> Some (pre, e)
      | [] \<Rightarrow> search_from fl r (pre @ [c]) (Some c) cs)"

definition search :: "flags \<Rightarrow> rx \<Rightarrow> string \<Rightarrow> (string \<times> mstate) option" where
  "search fl r s = search_from fl r [] None s"

text \<open>
  The scan behind \<^verbatim>\<open>finditer\<close>, \<^verbatim>\<open>findall\<close> and \<^verbatim>\<open>sub\<close>: the successive matches from
  the left, none overlapping, each with the unmatched text before it, and the unmatched
  text after the last.  After an empty match the next one may not be empty at the same
  position (\<open>adv\<close>), as in Python 3.7 and later.
\<close>

function scan :: "flags \<Rightarrow> rx \<Rightarrow> bool \<Rightarrow> string \<Rightarrow> char option \<Rightarrow> string \<Rightarrow> (string \<times> mstate) list \<times> string" where
  "scan fl r adv gap p s =
     (case filter (\<lambda>e. \<not> adv \<or> length (rest e) < length s) (ms fl r (MState p s None)) of
        e # _ \<Rightarrow>
          (let (found, tail) =
                 (if length (rest e) < length s
                  then scan fl r False [] (prev e) (rest e)
                  else scan fl r True [] p s)
           in ((gap, e) # found, tail))
      | [] \<Rightarrow>
          (case s of
             [] \<Rightarrow> ([], gap)
           | c # cs \<Rightarrow> scan fl r False (gap @ [c]) (Some c) cs))"
  by pat_completeness auto
termination
proof (relation "measures [\<lambda>(fl, r, adv, gap, p, s). length s,
                           \<lambda>(fl, r, adv, gap, p, s). if adv then 0 else 1]")
  fix fl :: flags and r :: rx and adv :: bool and gap :: string and p :: "char option"
    and s :: string and e :: mstate and es :: "mstate list"
  assume f: "filter (\<lambda>e. \<not> adv \<or> length (rest e) < length s) (ms fl r (MState p s None)) = e # es"
    and n: "\<not> length (rest e) < length s"
  have "e \<in> set (filter (\<lambda>e. \<not> adv \<or> length (rest e) < length s) (ms fl r (MState p s None)))"
    unfolding f by simp
  with n have "\<not> adv" by simp
  then show "((fl, r, True, [], p, s), (fl, r, adv, gap, p, s))
      \<in> measures [\<lambda>(fl, r, adv, gap, p, s). length s,
                   \<lambda>(fl, r, adv, gap, p, s). if adv then 0 else 1]"
    by simp
qed auto

declare scan.simps [simp del]

definition group1 :: "mstate \<Rightarrow> string" where
  "group1 e = (case grp e of Some g \<Rightarrow> g | None \<Rightarrow> [])"

text \<open>\<^verbatim>\<open>[m.end() for m in p.finditer(s)]\<close>, as the text from each match's end on.\<close>

definition finditer_ends :: "flags \<Rightarrow> rx \<Rightarrow> string \<Rightarrow> string list" where
  "finditer_ends fl r s = map (\<lambda>(gap, e). rest e) (fst (scan fl r False [] None s))"

text \<open>\<^verbatim>\<open>re.findall\<close> for a pattern with one group: the group's text, per match.\<close>

definition findall :: "flags \<Rightarrow> rx \<Rightarrow> string \<Rightarrow> string list" where
  "findall fl r s = map (\<lambda>(gap, e). group1 e) (fst (scan fl r False [] None s))"

text \<open>\<^verbatim>\<open>re.sub(pattern, r"\1", s)\<close>: each match replaced by its group 1.\<close>

definition sub_group1 :: "flags \<Rightarrow> rx \<Rightarrow> string \<Rightarrow> string" where
  "sub_group1 fl r s =
     (let (found, tail) = scan fl r False [] None s
      in concat (map (\<lambda>(gap, e). gap @ group1 e) found) @ tail)"

definition seqs :: "rx list \<Rightarrow> rx" where
  "seqs rs = foldr Seq rs Eps"

definition lits :: "string \<Rightarrow> rx" where
  "lits s = seqs (map (\<lambda>c. Atom (Lit c)) s)"

definition no_flags :: flags where
  "no_flags = Flags False False False"

section \<open>The Markdown normalizer\<close>

text \<open>
  \<^verbatim>\<open>def _clean_markdown(text)\<close> (a name cannot start with an underscore here):
  \<^verbatim>\<open>
    text = re.sub(r"\*\*([^*]+)\*\*", r"\1", text)   # bold
    text = re.sub(r"`([^`]+)`", r"\1", text)           # inline code
    text = re.sub(r"\*([^*]+)\*", r"\1", text)         # italic
    return " ".join(text.split())
  \<close>
\<close>

definition bold_rx :: rx where
  "bold_rx = seqs [lits ''**'', Grp (Rep True 1 None (NoneOf ''*'')), lits ''**'']"

definition code_rx :: rx where
  "code_rx = seqs [Atom (Lit (CHR 0x60)), Grp (Rep True 1 None (NoneOf [CHR 0x60])),
                   Atom (Lit (CHR 0x60))]"

definition italic_rx :: rx where
  "italic_rx = seqs [Atom (Lit (CHR ''*'')), Grp (Rep True 1 None (NoneOf ''*'')),
                     Atom (Lit (CHR ''*''))]"

definition clean_markdown :: "string \<Rightarrow> string" where
  "clean_markdown text =
     (let text1 = sub_group1 no_flags bold_rx text;
          text2 = sub_group1 no_flags code_rx text1;
          text3 = sub_group1 no_flags italic_rx text2
      in join '' '' (split text3))"

section \<open>Learnings extraction from the reconstructed text\<close>

definition MIN_LEARNING_LENGTH :: nat where
  "MIN_LEARNING_LENGTH = 20"

text \<open>
  \<^verbatim>\<open>header_pattern = re.compile(
      r"^#{2,3}\s+(?:Aprendizajes(?:\s+Clave)?|Key\s+Learnings?|Learnings?):?\s*$",
      re.IGNORECASE | re.MULTILINE)\<close>
\<close>

definition header_flags :: flags where
  "header_flags = Flags True True False"

definition header_pattern :: rx where
  "header_pattern =
     seqs [Bol, Rep True 2 (Some 3) (Lit (CHR ''#'')), Rep True 1 None Space,
           Alt (Seq (lits ''Aprendizajes'')
                    (Alt (Seq (Rep True 1 None Space) (lits ''Clave'')) Eps))
               (Alt (seqs [lits ''Key'', Rep True 1 None Space, lits ''Learning'',
                           Rep True 0 (Some 1) (Lit (CHR ''s''))])
                    (seqs [lits ''Learning'', Rep True 0 (Some 1) (Lit (CHR ''s''))])),
           Rep True 0 (Some 1) (Lit (CHR '':'')), Rep True 0 None Space, Eol]"

text \<open>\<^verbatim>\<open>re.search(r"\n#{1,3} ", section_text)\<close>\<close>

definition next_section_rx :: rx where
  "next_section_rx =
     seqs [Atom (Lit (CHR 0x0A)), Rep True 1 (Some 3) (Lit (CHR ''#'')), Atom (Lit (CHR '' ''))]"

text \<open>
  \<^verbatim>\<open>re.findall(r"^\s*\d+[.)]\s+(.+?)(?=\n\s*\d+[.)]|\n\n|\Z)", section_text,
      re.MULTILINE | re.DOTALL)\<close> and
  \<^verbatim>\<open>re.findall(r"^\s*[-*]\s+(.+?)(?=\n\s*[-*]|\n\n|\Z)", section_text,
      re.MULTILINE | re.DOTALL)\<close>
\<close>

definition list_flags :: flags where
  "list_flags = Flags False True True"

definition numbered_rx :: rx where
  "numbered_rx =
     seqs [Bol, Rep True 0 None Space, Rep True 1 None Digit, Atom (OneOf ''.)''),
           Rep True 1 None Space, Grp (Rep False 1 None Dot),
           Look (Alt (seqs [Atom (Lit (CHR 0x0A)), Rep True 0 None Space,
                            Rep True 1 None Digit, Atom (OneOf ''.)'')])
                     (Alt (lits [CHR 0x0A, CHR 0x0A]) EndZ))]"

definition bullets_rx :: rx where
  "bullets_rx =
     seqs [Bol, Rep True 0 None Space, Atom (OneOf ''-*''),
           Rep True 1 None Space, Grp (Rep False 1 None Dot),
           Look (Alt (seqs [Atom (Lit (CHR 0x0A)), Rep True 0 None Space,
                            Atom (OneOf ''-*'')])
                     (Alt (lits [CHR 0x0A, CHR 0x0A]) EndZ))]"

text \<open>
  The two loops
  \<^verbatim>\<open>
    for item in numbered:            # and: for item in bullets:
        cleaned = _clean_markdown(item)
        if len(cleaned) >= MIN_LEARNING_LENGTH and not cleaned.startswith("["):
            learnings.append(cleaned)
  \<close>
  with the list \<open>learnings\<close> passed through.
\<close>

fun collect :: "string list \<Rightarrow> string list \<Rightarrow> string list" where
  "collect learnings [] = learnings"
| "collect learnings (item # items) =
     (let cleaned = clean_markdown item
      in if MIN_LEARNING_LENGTH \<le> length cleaned \<and> \<not> startswith cleaned ''[''
         then collect (learnings @ [cleaned]) items
         else collect learnings items)"

text \<open>
  The section body: \<^verbatim>\<open>section_text = text[match.end():]\<close>, cut at the first match of
  \<^verbatim>\<open>\n#{1,3} \<close> when there is one.  The argument is \<^verbatim>\<open>text[match.end():]\<close>.
\<close>

definition cut_section :: "string \<Rightarrow> string" where
  "cut_section section_text =
     (case search no_flags next_section_rx section_text of
        Some (before, e) \<Rightarrow> before
      | None \<Rightarrow> section_text)"

text \<open>The body of the loop over the header matches, up to its \<^verbatim>\<open>if learnings:\<close>.\<close>

definition section_learnings :: "string \<Rightarrow> string list" where
  "section_learnings after_header =
     (let section_text = cut_section after_header;
          numbered = findall list_flags numbered_rx section_text;
          learnings = (if numbered \<noteq> [] then collect [] numbered else [])
      in if learnings = []
         then collect learnings (findall list_flags bullets_rx section_text)
         else learnings)"

text \<open>
  \<^verbatim>\<open>for match in reversed(matches): ... if learnings: return learnings\<close>, then
  \<^verbatim>\<open>return []\<close>.  The list holds \<^verbatim>\<open>text[match.end():]\<close> for the matches in the order
  the loop visits them.
\<close>

fun first_valid :: "string list \<Rightarrow> string list" where
  "first_valid [] = []"
| "first_valid (after_header # older) =
     (let learnings = section_learnings after_header
      in if learnings \<noteq> [] then learnings else first_valid older)"

text \<open>\<open>extract_learnings\<close> from \<^verbatim>\<open>if not text.strip()\<close> on, for the reconstructed text.\<close>

definition learnings_of_text :: "string \<Rightarrow> string list" where
  "learnings_of_text text =
     (if strip text = [] then []
      else let matches = finditer_ends header_flags header_pattern text
           in if matches = [] then [] else first_valid (rev matches))"

section \<open>JSON values, exceptions and transcript files\<close>

text \<open>
  What \<^verbatim>\<open>json.loads\<close> returns.  A dict is an association list read with \<open>map_of\<close>; a
  finite float is the rational it denotes.  (\<^verbatim>\<open>json.loads\<close> also accepts \<^verbatim>\<open>NaN\<close> and the
  infinities; the program treats them as it treats any float that is not zero.)
\<close>

datatype json =
    JNull
  | JBool bool
  | JInt int
  | JFloat rat
  | JStr string
  | JList "json list"
  | JDict "(string \<times> json) list"

datatype exn = TypeError | AttributeError | KeyError | OSError

text \<open>The truth value Python gives a value in \<^verbatim>\<open>if x:\<close>.\<close>

fun truthy :: "json \<Rightarrow> bool" where
  "truthy JNull = False"
| "truthy (JBool b) = b"
| "truthy (JInt n) = (n \<noteq> 0)"
| "truthy (JFloat r) = (r \<noteq> 0)"
| "truthy (JStr s) = (s \<noteq> [])"
| "truthy (JList xs) = (xs \<noteq> [])"
| "truthy (JDict d) = (d \<noteq> [])"

text \<open>\<^verbatim>\<open>d.get(k, default)\<close> on a dict, and on any value (only a dict has \<^verbatim>\<open>.get\<close>).\<close>

definition dict_get :: "(string \<times> json) list \<Rightarrow> string \<Rightarrow> json \<Rightarrow> json" where
  "dict_get d k dflt = (case map_of d k of Some v \<Rightarrow> v | None \<Rightarrow> dflt)"

fun py_get :: "json \<Rightarrow> string \<Rightarrow> json \<Rightarrow> exn + json" where
  "py_get (JDict d) k dflt = Inr (dict_get d k dflt)"
| "py_get _ k dflt = Inl AttributeError"

text \<open>
  \<^verbatim>\<open>k in x\<close> for a string \<open>k\<close>: a key of a dict, an element of a list, a substring of a
  string; any other value is not iterable.
\<close>

fun is_substring :: "string \<Rightarrow> string \<Rightarrow> bool" where
  "is_substring k [] = (k = [])"
| "is_substring k (c # cs) = (startswith (c # cs) k \<or> is_substring k cs)"

fun py_in :: "string \<Rightarrow> json \<Rightarrow> exn + bool" where
  "py_in k (JDict d) = Inr (k \<in> set (map fst d))"
| "py_in k (JList xs) = Inr (JStr k \<in> set xs)"
| "py_in k (JStr s) = Inr (is_substring k s)"
| "py_in k _ = Inl TypeError"

text \<open>\<^verbatim>\<open>x[k]\<close> for a string \<open>k\<close>.\<close>

fun py_index :: "json \<Rightarrow> string \<Rightarrow> exn + json" where
  "py_index (JDict d) k = (case map_of d k of Some v \<Rightarrow> Inr v | None \<Rightarrow> Inl KeyError)"
| "py_index _ k = Inl TypeError"

text \<open>
  A line of a JSONL file as the loops see it: blank after \<^verbatim>\<open>strip()\<close>, refused by
  \<^verbatim>\<open>json.loads\<close> with \<^verbatim>\<open>JSONDecodeError\<close>, or parsed.  The fourth case, \<open>Aborts\<close>, is
  a line at which an exception other than \<^verbatim>\<open>JSONDecodeError\<close> is raised: reading it
  fails (\<^verbatim>\<open>UnicodeDecodeError\<close>, an I/O error), or \<^verbatim>\<open>json.loads\<close> raises \<^verbatim>\<open>ValueError\<close>
  (an integer beyond the digit limit) or \<^verbatim>\<open>RecursionError\<close>.  The per-line handler does
  not catch it, so it ends the loop.

  A path: \<open>Missing\<close> when \<^verbatim>\<open>Path.exists()\<close> is false; \<open>Inaccessible\<close> when
  \<^verbatim>\<open>Path.exists()\<close> itself raises \<^verbatim>\<open>OSError\<close> (a name that is too long, a directory that
  may not be searched); \<open>Unreadable\<close> when the path exists and \<^verbatim>\<open>open\<close> raises; otherwise
  the lines of the file.
\<close>

datatype jline = Blank | Malformed | Aborts | Parsed json

datatype jsonl_file = Missing | Inaccessible | Unreadable | Lines "jline list"

type_synonym filesystem = "string \<Rightarrow> jsonl_file"

section \<open>Agent detection from the parent transcript\<close>

text \<open>
  The loops of \<open>detect_agent_name\<close> append to the list \<open>found\<close> in place, and the
  \<^verbatim>\<open>try\<close> around the file loop keeps what was appended when an exception ends the loop:
  each function below returns the list, and the exception if one was raised.

  \<^verbatim>\<open>
    for item in content:
        if (isinstance(item, dict) and item.get("type") == "tool_use"
                and item.get("name") == "Task"):
            subagent_type = item.get("input", {}).get("subagent_type")
            if subagent_type:
                found.append(subagent_type)
  \<close>
\<close>

fun task_items :: "json list \<Rightarrow> json list \<Rightarrow> json list \<times> exn option" where
  "task_items found [] = (found, None)"
| "task_items found (item # items) =
     (case item of
        JDict d \<Rightarrow>
          (if dict_get d ''type'' JNull = JStr ''tool_use''
              \<and> dict_get d ''name'' JNull = JStr ''Task''
           then (case py_get (dict_get d ''input'' (JDict [])) ''subagent_type'' JNull of
                   Inl e \<Rightarrow> (found, Some e)
                 | Inr subagent_type \<Rightarrow>
                     task_items (if truthy subagent_type then found @ [subagent_type] else found)
                       items)
           else task_items found items)
      | _ \<Rightarrow> task_items found items)"

text \<open>
  \<^verbatim>\<open>
    content = None
    if "message" in entry:
        content = entry["message"].get("content", [])
    elif "content" in entry:
        content = entry.get("content", [])
  \<close>
\<close>

definition entry_content :: "json \<Rightarrow> exn + json" where
  "entry_content entry =
     (case py_in ''message'' entry of
        Inl e \<Rightarrow> Inl e
      | Inr True \<Rightarrow>
          (case py_index entry ''message'' of
             Inl e \<Rightarrow> Inl e
           | Inr message \<Rightarrow> py_get message ''content'' (JList []))
      | Inr False \<Rightarrow>
          (case py_in ''content'' entry of
             Inl e \<Rightarrow> Inl e
           | Inr True \<Rightarrow> py_get entry ''content'' (JList [])
           | Inr False \<Rightarrow> Inr JNull))"

text \<open>
  \<^verbatim>\<open>
    if "tool_input" in entry:
        subagent_type = entry["tool_input"].get("subagent_type")
        if subagent_type:
            found.append(subagent_type)
  \<close>
\<close>

definition entry_tool_input :: "json list \<Rightarrow> json \<Rightarrow> json list \<times> exn option" where
  "entry_tool_input found entry =
     (case py_in ''tool_input'' entry of
        Inl e \<Rightarrow> (found, Some e)
      | Inr False \<Rightarrow> (found, None)
      | Inr True \<Rightarrow>
          (case py_index entry ''tool_input'' of
             Inl e \<Rightarrow> (found, Some e)
           | Inr tool_input \<Rightarrow>
               (case py_get tool_input ''subagent_type'' JNull of
                  Inl e \<Rightarrow> (found, Some e)
                | Inr subagent_type \<Rightarrow>
                    (if truthy subagent_type then found @ [subagent_type] else found, None))))"

text \<open>One parsed line: format 1 (\<^verbatim>\<open>if isinstance(content, list)\<close>), then format 2.\<close>

definition detect_entry :: "json list \<Rightarrow> json \<Rightarrow> json list \<times> exn option" where
  "detect_entry found entry =
     (case entry_content entry of
        Inl e \<Rightarrow> (found, Some e)
      | Inr content \<Rightarrow>
          (case (case content of JList items \<Rightarrow> task_items found items | _ \<Rightarrow> (found, None)) of
             (found1, Some e) \<Rightarrow> (found1, Some e)
           | (found1, None) \<Rightarrow> entry_tool_input found1 entry))"

text \<open>
  The loop over the lines inside \<^verbatim>\<open>try: ... except Exception\<close>: an exception ends the
  loop, and \<open>found\<close> keeps what it held.
\<close>

fun detect_lines :: "json list \<Rightarrow> jline list \<Rightarrow> json list" where
  "detect_lines found [] = found"
| "detect_lines found (Blank # rest_lines) = detect_lines found rest_lines"
| "detect_lines found (Malformed # rest_lines) = detect_lines found rest_lines"
| "detect_lines found (Aborts # rest_lines) = found"
| "detect_lines found (Parsed entry # rest_lines) =
     (case detect_entry found entry of
        (found1, Some e) \<Rightarrow> found1
      | (found1, None) \<Rightarrow> detect_lines found1 rest_lines)"

text \<open>
  \<open>detect_agent_name\<close>.  The value appended is whatever JSON value the field holds, so
  the value returned is a \<^typ>\<open>json\<close>; \<^verbatim>\<open>"unknown"\<close> is \<open>JStr ''unknown''\<close>.
  \<^verbatim>\<open>path.exists()\<close> stands before the \<^verbatim>\<open>try\<close>: when it raises, the function raises.
\<close>

definition detect_agent_name :: "filesystem \<Rightarrow> string \<Rightarrow> exn + json" where
  "detect_agent_name fs parent_transcript_path =
     (if parent_transcript_path = [] then Inr (JStr ''unknown'')
      else case fs parent_transcript_path of
        Missing \<Rightarrow> Inr (JStr ''unknown'')
      | Inaccessible \<Rightarrow> Inl OSError
      | f \<Rightarrow>
          (let found = (case f of Lines ls \<Rightarrow> detect_lines [] ls | _ \<Rightarrow> [])
           in if found \<noteq> [] then Inr (last found) else Inr (JStr ''unknown'')))"

section \<open>Text reconstruction from the agent transcript\<close>

text \<open>
  \<open>_extract_text_from_jsonl\<close>.  The list \<open>parts\<close> is appended to in place and survives
  an exception caught by the \<^verbatim>\<open>try\<close> around the file loop.  The assistant loop appends
  any truthy \<^verbatim>\<open>text\<close> value as it is, so \<open>parts\<close> is a list of JSON values.

  \<^verbatim>\<open>
    for item in content:                                   # type == "assistant"
        if isinstance(item, dict) and item.get("type") == "text":
            text = item.get("text", "")
            if text:
                parts.append(text)
  \<close>
\<close>

definition newline :: string where
  "newline = [CHR 0x0A]"

definition backslash_n :: string where
  "backslash_n = [CHR 0x5C, CHR ''n'']"

fun assistant_items :: "json list \<Rightarrow> json list \<Rightarrow> json list" where
  "assistant_items parts [] = parts"
| "assistant_items parts (item # items) =
     (case item of
        JDict d \<Rightarrow>
          (if dict_get d ''type'' JNull = JStr ''text''
           then (let text = dict_get d ''text'' (JStr [])
                 in assistant_items (if truthy text then parts @ [text] else parts) items)
           else assistant_items parts items)
      | _ \<Rightarrow> assistant_items parts items)"

text \<open>
  \<^verbatim>\<open>
    for block in result_content:
        if isinstance(block, dict) and block.get("type") == "text":
            text = block.get("text", "")
            if text:
                parts.append(text.replace("\\n", "\n"))
  \<close>
  Only a \<^verbatim>\<open>str\<close> has \<^verbatim>\<open>.replace\<close>.
\<close>

fun result_blocks :: "json list \<Rightarrow> json list \<Rightarrow> json list \<times> exn option" where
  "result_blocks parts [] = (parts, None)"
| "result_blocks parts (block # blocks) =
     (case block of
        JDict d \<Rightarrow>
          (if dict_get d ''type'' JNull = JStr ''text''
           then (let text = dict_get d ''text'' (JStr [])
                 in if truthy text
                    then (case text of
                            JStr t \<Rightarrow>
                              result_blocks (parts @ [JStr (replace backslash_n newline t)]) blocks
                          | _ \<Rightarrow> (parts, Some AttributeError))
                    else result_blocks parts blocks)
           else result_blocks parts blocks)
      | _ \<Rightarrow> result_blocks parts blocks)"

text \<open>
  \<^verbatim>\<open>
    for item in content:                                   # type == "user"
        if isinstance(item, dict) and item.get("type") == "tool_result":
            result_content = item.get("content", "")
            if isinstance(result_content, list):
                for block in result_content: ...
  \<close>
\<close>

fun user_items :: "json list \<Rightarrow> json list \<Rightarrow> json list \<times> exn option" where
  "user_items parts [] = (parts, None)"
| "user_items parts (item # items) =
     (case item of
        JDict d \<Rightarrow>
          (if dict_get d ''type'' JNull = JStr ''tool_result''
           then (case dict_get d ''content'' (JStr []) of
                   JList result_content \<Rightarrow>
                     (case result_blocks parts result_content of
                        (parts1, Some e) \<Rightarrow> (parts1, Some e)
                      | (parts1, None) \<Rightarrow> user_items parts1 items)
                 | _ \<Rightarrow> user_items parts items)
           else user_items parts items)
      | _ \<Rightarrow> user_items parts items)"

text \<open>
  The three \<^verbatim>\<open>if entry.get("type") == ...\<close> blocks of the loop body, in order.  Each
  evaluates \<^verbatim>\<open>entry.get("type")\<close>, which raises for an entry that is not a dict.
\<close>

definition entry_assistant :: "json list \<Rightarrow> json \<Rightarrow> json list \<times> exn option" where
  "entry_assistant parts entry =
     (case py_get entry ''type'' JNull of
        Inl e \<Rightarrow> (parts, Some e)
      | Inr ty \<Rightarrow>
          (if ty = JStr ''assistant''
           then (case py_get entry ''message'' (JDict []) of
                   Inl e \<Rightarrow> (parts, Some e)
                 | Inr message \<Rightarrow>
                     (case py_get message ''content'' (JList []) of
                        Inl e \<Rightarrow> (parts, Some e)
                      | Inr (JList items) \<Rightarrow> (assistant_items parts items, None)
                      | Inr _ \<Rightarrow> (parts, None)))
           else (parts, None)))"

definition entry_user :: "json list \<Rightarrow> json \<Rightarrow> json list \<times> exn option" where
  "entry_user parts entry =
     (case py_get entry ''type'' JNull of
        Inl e \<Rightarrow> (parts, Some e)
      | Inr ty \<Rightarrow>
          (if ty = JStr ''user''
           then (case py_get entry ''message'' (JDict []) of
                   Inl e \<Rightarrow> (parts, Some e)
                 | Inr message \<Rightarrow>
                     (case py_get message ''content'' (JList []) of
                        Inl e \<Rightarrow> (parts, Some e)
                      | Inr (JList items) \<Rightarrow> user_items parts items
                      | Inr _ \<Rightarrow> (parts, None)))
           else (parts, None)))"

definition entry_tool_result :: "json list \<Rightarrow> json \<Rightarrow> json list \<times> exn option" where
  "entry_tool_result parts entry =
     (case py_get entry ''type'' JNull of
        Inl e \<Rightarrow> (parts, Some e)
      | Inr ty \<Rightarrow>
          (if ty = JStr ''tool_result''
           then (case py_get entry ''content'' (JStr []) of
                   Inl e \<Rightarrow> (parts, Some e)
                 | Inr (JStr content) \<Rightarrow>
                     (if content \<noteq> []
                      then (parts @ [JStr (replace backslash_n newline content)], None)
                      else (parts, None))
                 | Inr _ \<Rightarrow> (parts, None))
           else (parts, None)))"

definition extract_entry :: "json list \<Rightarrow> json \<Rightarrow> json list \<times> exn option" where
  "extract_entry parts entry =
     (case entry_assistant parts entry of
        (parts1, Some e) \<Rightarrow> (parts1, Some e)
      | (parts1, None) \<Rightarrow>
          (case entry_user parts1 entry of
             (parts2, Some e) \<Rightarrow> (parts2, Some e)
           | (parts2, None) \<Rightarrow> entry_tool_result parts2 entry))"

fun extract_lines :: "json list \<Rightarrow> jline list \<Rightarrow> json list" where
  "extract_lines parts [] = parts"
| "extract_lines parts (Blank # rest_lines) = extract_lines parts rest_lines"
| "extract_lines parts (Malformed # rest_lines) = extract_lines parts rest_lines"
| "extract_lines parts (Aborts # rest_lines) = parts"
| "extract_lines parts (Parsed entry # rest_lines) =
     (case extract_entry parts entry of
        (parts1, Some e) \<Rightarrow> parts1
      | (parts1, None) \<Rightarrow> extract_lines parts1 rest_lines)"

text \<open>
  \<^verbatim>\<open>return "\n".join(parts)\<close> stands outside the \<^verbatim>\<open>try\<close>: it raises \<^verbatim>\<open>TypeError\<close> when
  an element of \<open>parts\<close> is not a string.
\<close>

fun str_of :: "json \<Rightarrow> string option" where
  "str_of (JStr s) = Some s"
| "str_of _ = None"

definition join_parts :: "json list \<Rightarrow> exn + string" where
  "join_parts parts =
     (case those (map str_of parts) of
        None \<Rightarrow> Inl TypeError
      | Some strs \<Rightarrow> Inr (join newline strs))"

definition extract_text_from_jsonl :: "jsonl_file \<Rightarrow> exn + string" where
  "extract_text_from_jsonl f =
     join_parts (case f of Lines ls \<Rightarrow> extract_lines [] ls | _ \<Rightarrow> [])"

text \<open>
  \<open>extract_learnings\<close>, with the file system as an argument.  Here too
  \<^verbatim>\<open>path.exists()\<close> stands outside every \<^verbatim>\<open>try\<close>.
\<close>

definition extract_learnings :: "filesystem \<Rightarrow> string \<Rightarrow> exn + string list" where
  "extract_learnings fs agent_transcript_path =
     (if agent_transcript_path = [] then Inr []
      else case fs agent_transcript_path of
        Missing \<Rightarrow> Inr []
      | Inaccessible \<Rightarrow> Inl OSError
      | f \<Rightarrow>
          (case extract_text_from_jsonl f of
             Inl e \<Rightarrow> Inl e
           | Inr text \<Rightarrow> Inr (learnings_of_text text)))"

section \<open>Engram connectivity\<close>

text \<open>
  What \<^verbatim>\<open>requests.get\<close> or \<^verbatim>\<open>requests.post\<close> gives: an exception (no connection, a
  timeout), or a response with its status code and with its body as \<^verbatim>\<open>resp.json()\<close>
  reads it (\<open>None\<close> when \<^verbatim>\<open>resp.json()\<close> raises).
\<close>

datatype response = NoResponse | Response (status_code: nat) (body: "json option")

text \<open>
  \<^verbatim>\<open>resp.ok\<close> of the \<^verbatim>\<open>requests\<close> library: false exactly when \<^verbatim>\<open>raise_for_status()\<close>
  raises, which it does for \<^verbatim>\<open>400 <= status_code < 600\<close>.
\<close>

definition ok :: "nat \<Rightarrow> bool" where
  "ok status = (\<not> (400 \<le> status \<and> status < 600))"

definition check_engram_health :: "response \<Rightarrow> bool" where
  "check_engram_health resp =
     (case resp of NoResponse \<Rightarrow> False | Response status b \<Rightarrow> ok status)"

text \<open>\<open>save_to_engram\<close>: Python's \<^verbatim>\<open>None\<close> is \<open>JNull\<close>.\<close>

definition save_to_engram :: "response \<Rightarrow> json" where
  "save_to_engram resp =
     (case resp of
        NoResponse \<Rightarrow> JNull
      | Response status b \<Rightarrow>
          (if ok status
           then (case b of
                   None \<Rightarrow> JNull
                 | Some data \<Rightarrow>
                     (case py_get data ''id'' JNull of Inl e \<Rightarrow> JNull | Inr v \<Rightarrow> v))
           else JNull))"

section \<open>Main orchestration\<close>

text \<open>
  What one run of the hook meets: whether \<open>setup_logging\<close> fails (\<^verbatim>\<open>LOG_DIR.mkdir\<close> or
  \<^verbatim>\<open>logging.FileHandler\<close> raises), standard input, the answer to the health check, the
  files, and the answer to the POST of the \<open>i\<close>-th learning.
\<close>

datatype stdin_input = StdinUnreadable | StdinBlank | StdinInvalid | StdinJson json

record world =
  log_setup_fails :: bool
  stdin :: stdin_input
  health :: response
  files :: filesystem
  post :: "nat \<Rightarrow> string \<Rightarrow> response"

text \<open>
  \<^verbatim>\<open>sys.exit(n)\<close> raises \<^verbatim>\<open>SystemExit\<close>, which \<^verbatim>\<open>except Exception\<close> does not catch; every
  other exception of the model is an \<^verbatim>\<open>Exception\<close>.
\<close>

datatype signal = SystemExit int | Raised exn

text \<open>
  How the process ends: by \<^verbatim>\<open>sys.exit(n)\<close>, or by an exception nothing caught (a
  traceback and exit status 1).
\<close>

datatype outcome = Exited int | Crashed exn

definition exit_status :: "outcome \<Rightarrow> int" where
  "exit_status out = (case out of Exited n \<Rightarrow> n | Crashed e \<Rightarrow> 1)"

text \<open>The loop \<^verbatim>\<open>for learning in learnings\<close>, returning \<open>saved_count\<close>.\<close>

fun save_all :: "world \<Rightarrow> nat \<Rightarrow> nat \<Rightarrow> string list \<Rightarrow> nat" where
  "save_all w i saved_count [] = saved_count"
| "save_all w i saved_count (learning # learnings) =
     (let obs_id = save_to_engram (post w i learning)
      in save_all w (Suc i) (if truthy obs_id then Suc saved_count else saved_count) learnings)"

text \<open>
  The body of the \<^verbatim>\<open>try\<close> in \<open>main\<close>.  The project name, the title and the timestamp go
  to the payload and the log only; of \<^verbatim>\<open>Path(cwd).name\<close> the model keeps that \<^verbatim>\<open>Path\<close>
  raises \<^verbatim>\<open>TypeError\<close> for a value that is not a string.
\<close>

definition main_try :: "world \<Rightarrow> signal + nat" where
  "main_try w =
     (case stdin w of
        StdinUnreadable \<Rightarrow> Inl (Raised OSError)
      | input \<Rightarrow>
          (let data = (case input of StdinJson v \<Rightarrow> v | _ \<Rightarrow> JDict []) in
           case py_get data ''session_id'' (JStr []) of
             Inl e \<Rightarrow> Inl (Raised e)
           | Inr session_id \<Rightarrow>
          (case py_get data ''agent_transcript_path'' (JStr []) of
             Inl e \<Rightarrow> Inl (Raised e)
           | Inr agent_transcript \<Rightarrow>
          (case py_get data ''transcript_path'' (JStr []) of
             Inl e \<Rightarrow> Inl (Raised e)
           | Inr parent_transcript \<Rightarrow>
          (case py_get data ''cwd'' (JStr []) of
             Inl e \<Rightarrow> Inl (Raised e)
           | Inr cwd \<Rightarrow>
              if truthy cwd \<and> str_of cwd = None then Inl (Raised TypeError)
              else if \<not> check_engram_health (health w) then Inl (SystemExit 0)
              else if \<not> truthy agent_transcript then Inl (SystemExit 0)
              else (case agent_transcript of
                 JStr agent_path \<Rightarrow>
                   if files w agent_path = Inaccessible then Inl (Raised OSError)
                   else if files w agent_path = Missing then Inl (SystemExit 0)
                   else if truthy parent_transcript \<and> str_of parent_transcript = None
                   then Inl (Raised TypeError)
                   else (case (case parent_transcript of
                                 JStr parent_path \<Rightarrow> detect_agent_name (files w) parent_path
                               | _ \<Rightarrow> Inr (JStr ''unknown'')) of
                           Inl e \<Rightarrow> Inl (Raised e)
                         | Inr agent_name \<Rightarrow>
                             (case extract_learnings (files w) agent_path of
                                Inl e \<Rightarrow> Inl (Raised e)
                              | Inr learnings \<Rightarrow>
                                  if learnings = [] then Inl (SystemExit 0)
                                  else Inr (save_all w 0 0 learnings)))
               | _ \<Rightarrow> Inl (Raised TypeError)))))))"

text \<open>
  \<open>main\<close>: \<^verbatim>\<open>logger = setup_logging()\<close> stands before the \<^verbatim>\<open>try\<close>; after the \<^verbatim>\<open>try\<close>,
  with or without a caught exception, comes \<^verbatim>\<open>sys.exit(0)\<close>.
\<close>

definition main :: "world \<Rightarrow> outcome" where
  "main w =
     (if log_setup_fails w then Crashed OSError
      else case main_try w of
        Inl (SystemExit n) \<Rightarrow> Exited n
      | Inl (Raised e) \<Rightarrow> Exited 0
      | Inr saved_count \<Rightarrow> Exited 0)"

section \<open>The claims' wording, as definitions\<close>

text \<open>
  The definitions of this section are not translations of the program: they say, in the
  words of the specification, what a record of the parent transcript contributes, so
  that the program can be compared with them.  A content item contributes the
  \<^verbatim>\<open>subagent_type\<close> of its \<^verbatim>\<open>input\<close> when it is a \<^verbatim>\<open>tool_use\<close> item named \<^verbatim>\<open>Task\<close>
  and the value is truthy.
\<close>

definition task_subagent :: "json \<Rightarrow> json list" where
  "task_subagent item =
     (case item of
        JDict d \<Rightarrow>
          (if dict_get d ''type'' JNull = JStr ''tool_use''
              \<and> dict_get d ''name'' JNull = JStr ''Task''
           then (case dict_get d ''input'' (JDict []) of
                   JDict inp \<Rightarrow>
                     (if truthy (dict_get inp ''subagent_type'' JNull)
                      then [dict_get inp ''subagent_type'' JNull] else [])
                 | _ \<Rightarrow> [])
           else [])
      | _ \<Rightarrow> [])"

definition content_list :: "json \<Rightarrow> json list" where
  "content_list content = (case content of JList items \<Rightarrow> items | _ \<Rightarrow> [])"

text \<open>Shape (a): the \<^verbatim>\<open>Task\<close> items of the content list of the record's \<^verbatim>\<open>message\<close>.\<close>

definition message_matches :: "json \<Rightarrow> json list" where
  "message_matches entry =
     (case entry of
        JDict d \<Rightarrow>
          (case map_of d ''message'' of
             Some (JDict m) \<Rightarrow>
               concat (map task_subagent (content_list (dict_get m ''content'' (JList []))))
           | _ \<Rightarrow> [])
      | _ \<Rightarrow> [])"

text \<open>
  The shape the claim does not name: the \<^verbatim>\<open>Task\<close> items of a top-level \<^verbatim>\<open>content\<close>
  list, in a record that has no \<^verbatim>\<open>message\<close> key.
\<close>

definition content_matches :: "json \<Rightarrow> json list" where
  "content_matches entry =
     (case entry of
        JDict d \<Rightarrow>
          (case map_of d ''message'' of
             None \<Rightarrow> concat (map task_subagent (content_list (dict_get d ''content'' JNull)))
           | Some m \<Rightarrow> [])
      | _ \<Rightarrow> [])"

text \<open>Shape (b): the top-level \<^verbatim>\<open>tool_input.subagent_type\<close>.\<close>

definition tool_input_matches :: "json \<Rightarrow> json list" where
  "tool_input_matches entry =
     (case entry of
        JDict d \<Rightarrow>
          (case map_of d ''tool_input'' of
             Some (JDict t) \<Rightarrow>
               (if truthy (dict_get t ''subagent_type'' JNull)
                then [dict_get t ''subagent_type'' JNull] else [])
           | _ \<Rightarrow> [])
      | _ \<Rightarrow> [])"

definition parsed_entries :: "jline list \<Rightarrow> json list" where
  "parsed_entries ls = concat (map (\<lambda>l. case l of Parsed entry \<Rightarrow> [entry] | _ \<Rightarrow> []) ls)"

definition last_or_unknown :: "json list \<Rightarrow> json" where
  "last_or_unknown found = (if found = [] then JStr ''unknown'' else last found)"

text \<open>
  Claim C6 as it is worded: every parsed line is scanned, the matches of shapes (a) and
  (b) go to one list in file order, and the last element is returned.
\<close>

definition detect_agent_name_claimed :: "filesystem \<Rightarrow> string \<Rightarrow> json" where
  "detect_agent_name_claimed fs parent_transcript_path =
     (if parent_transcript_path = [] then JStr ''unknown''
      else case fs parent_transcript_path of
        Lines ls \<Rightarrow>
          last_or_unknown
            (concat (map (\<lambda>entry. message_matches entry @ tool_input_matches entry)
                       (parsed_entries ls)))
      | _ \<Rightarrow> JStr ''unknown'')"

text \<open>A record at which the scan of \<open>detect_agent_name\<close> raises, which ends the scan.\<close>

definition entry_raises :: "json \<Rightarrow> bool" where
  "entry_raises entry = (snd (detect_entry [] entry) \<noteq> None)"

text \<open>
  The records the amended claim C6 speaks of, by their shape: a JSON object whose
  \<^verbatim>\<open>message\<close> and \<^verbatim>\<open>tool_input\<close>, where present, are objects, and in whose scanned
  content list the \<^verbatim>\<open>input\<close> of every \<^verbatim>\<open>Task\<close> item, where present, is an object.  A
  line is in order when it is blank, refused with \<^verbatim>\<open>JSONDecodeError\<close>, or such a record.
\<close>

definition is_dict :: "json \<Rightarrow> bool" where
  "is_dict v = (case v of JDict d \<Rightarrow> True | _ \<Rightarrow> False)"

definition task_item_ok :: "json \<Rightarrow> bool" where
  "task_item_ok item =
     (case item of
        JDict d \<Rightarrow>
          (if dict_get d ''type'' JNull = JStr ''tool_use''
              \<and> dict_get d ''name'' JNull = JStr ''Task''
           then is_dict (dict_get d ''input'' (JDict [])) else True)
      | _ \<Rightarrow> True)"

definition record_ok :: "json \<Rightarrow> bool" where
  "record_ok entry =
     (case entry of
        JDict d \<Rightarrow>
          (case map_of d ''message'' of
             Some m \<Rightarrow>
               (case m of
                  JDict md \<Rightarrow>
                    list_all task_item_ok (content_list (dict_get md ''content'' (JList [])))
                | _ \<Rightarrow> False)
           | None \<Rightarrow> list_all task_item_ok (content_list (dict_get d ''content'' JNull)))
          \<and> (case map_of d ''tool_input'' of Some t \<Rightarrow> is_dict t | None \<Rightarrow> True)
      | _ \<Rightarrow> False)"

definition line_ok :: "jline \<Rightarrow> bool" where
  "line_ok l = (case l of Parsed entry \<Rightarrow> record_ok entry | Aborts \<Rightarrow> False | _ \<Rightarrow> True)"

text \<open>
  The lines a scan reaches: those before the first line at which reading or parsing
  raises something other than \<^verbatim>\<open>JSONDecodeError\<close>.
\<close>

definition scanned :: "jline list \<Rightarrow> jline list" where
  "scanned ls = takeWhile (\<lambda>l. l \<noteq> Aborts) ls"

text \<open>Claim C8 as it is worded: a 2xx status.\<close>

definition is_2xx :: "nat \<Rightarrow> bool" where
  "is_2xx status = (200 \<le> status \<and> status < 300)"

text \<open>The world of a run in which the log directory cannot be created.\<close>

definition blocked_log_world :: world where
  "blocked_log_world =
     \<lparr>log_setup_fails = True, stdin = StdinBlank, health = NoResponse,
      files = (\<lambda>p. Missing), post = (\<lambda>i learning. NoResponse)\<rparr>"

text \<open>
  Claim C7's wording: what a record contributes to the reconstructed text.  A block
  contributes its \<^verbatim>\<open>text\<close> when it is a \<^verbatim>\<open>text\<close>-typed block and the value is truthy; a
  \<^verbatim>\<open>tool_result\<close> item contributes the unescaped texts of its blocks when its content
  is a list, and nothing otherwise.
\<close>

definition block_text :: "json \<Rightarrow> json list" where
  "block_text block =
     (case block of
        JDict d \<Rightarrow>
          (if dict_get d ''type'' JNull = JStr ''text'' \<and> truthy (dict_get d ''text'' (JStr []))
           then [dict_get d ''text'' (JStr [])] else [])
      | _ \<Rightarrow> [])"

definition unescape :: "json \<Rightarrow> json" where
  "unescape v = (case v of JStr t \<Rightarrow> JStr (replace backslash_n newline t) | _ \<Rightarrow> v)"

definition tool_result_fragments :: "json \<Rightarrow> json list" where
  "tool_result_fragments item =
     (case item of
        JDict d \<Rightarrow>
          (if dict_get d ''type'' JNull = JStr ''tool_result''
           then (case dict_get d ''content'' (JStr []) of
                   JList blocks \<Rightarrow> map unescape (concat (map block_text blocks))
                 | _ \<Rightarrow> [])
           else [])
      | _ \<Rightarrow> [])"

definition message_content :: "(string \<times> json) list \<Rightarrow> json list" where
  "message_content d =
     (case dict_get d ''message'' (JDict []) of
        JDict m \<Rightarrow> content_list (dict_get m ''content'' (JList []))
      | _ \<Rightarrow> [])"

definition assistant_fragments :: "json \<Rightarrow> json list" where
  "assistant_fragments entry =
     (case entry of
        JDict d \<Rightarrow>
          (if dict_get d ''type'' JNull = JStr ''assistant''
           then concat (map block_text (message_content d)) else [])
      | _ \<Rightarrow> [])"

definition user_fragments :: "json \<Rightarrow> json list" where
  "user_fragments entry =
     (case entry of
        JDict d \<Rightarrow>
          (if dict_get d ''type'' JNull = JStr ''user''
           then concat (map tool_result_fragments (message_content d)) else [])
      | _ \<Rightarrow> [])"

definition legacy_fragments :: "json \<Rightarrow> json list" where
  "legacy_fragments entry =
     (case entry of
        JDict d \<Rightarrow>
          (if dict_get d ''type'' JNull = JStr ''tool_result''
           then (case dict_get d ''content'' (JStr []) of
                   JStr c \<Rightarrow> (if c \<noteq> [] then [JStr (replace backslash_n newline c)] else [])
                 | _ \<Rightarrow> [])
           else [])
      | _ \<Rightarrow> [])"

definition entry_fragments :: "json \<Rightarrow> json list" where
  "entry_fragments entry =
     assistant_fragments entry @ user_fragments entry @ legacy_fragments entry"

text \<open>
  The records claim C7 is stated for, by their shape: a JSON object whose \<^verbatim>\<open>message\<close>,
  when the record is \<^verbatim>\<open>assistant\<close>- or \<^verbatim>\<open>user\<close>-typed and has one, is an object, and in
  whose \<^verbatim>\<open>tool_result\<close> items with list content every \<^verbatim>\<open>text\<close>-typed block has a
  \<^verbatim>\<open>text\<close> that is a string or falsy.
\<close>

definition text_block_ok :: "json \<Rightarrow> bool" where
  "text_block_ok block =
     (case block of
        JDict b \<Rightarrow>
          (if dict_get b ''type'' JNull = JStr ''text'' \<and> truthy (dict_get b ''text'' (JStr []))
           then str_of (dict_get b ''text'' (JStr [])) \<noteq> None else True)
      | _ \<Rightarrow> True)"

definition tool_result_ok :: "json \<Rightarrow> bool" where
  "tool_result_ok item =
     (case item of
        JDict d \<Rightarrow>
          (if dict_get d ''type'' JNull = JStr ''tool_result''
           then (case dict_get d ''content'' (JStr []) of
                   JList blocks \<Rightarrow> list_all text_block_ok blocks
                 | _ \<Rightarrow> True)
           else True)
      | _ \<Rightarrow> True)"

definition text_record_ok :: "json \<Rightarrow> bool" where
  "text_record_ok entry =
     (case entry of
        JDict d \<Rightarrow>
          (if dict_get d ''type'' JNull = JStr ''assistant''
           then is_dict (dict_get d ''message'' (JDict []))
           else if dict_get d ''type'' JNull = JStr ''user''
           then is_dict (dict_get d ''message'' (JDict []))
                \<and> list_all tool_result_ok (message_content d)
           else True)
      | _ \<Rightarrow> False)"

definition text_line_ok :: "jline \<Rightarrow> bool" where
  "text_line_ok l =
     (case l of Parsed entry \<Rightarrow> text_record_ok entry | Aborts \<Rightarrow> False | _ \<Rightarrow> True)"

text \<open>
  Claims C3 and C4's wording: a cleaned item is valid when its length is at least the
  threshold and it does not begin with \<^verbatim>\<open>[\<close>; a raw list yields the valid ones of its
  cleaned items, in order.
\<close>

definition valid_learning :: "string \<Rightarrow> bool" where
  "valid_learning cleaned = (MIN_LEARNING_LENGTH \<le> length cleaned \<and> take 1 cleaned \<noteq> ''['')"

definition valid_items :: "string list \<Rightarrow> string list" where
  "valid_items raw = filter valid_learning (map clean_markdown raw)"

text \<open>
  Claim C5 as it is worded.  The level of a header line is the number of \<^verbatim>\<open>#\<close> it starts
  with, when a space follows them (0 for a line that is no header); the body of a section
  opened by a header of level \<open>level\<close> runs to the next header line of that level or
  less, or to the end of the text.
\<close>

definition header_level :: "string \<Rightarrow> nat" where
  "header_level line =
     (let k = length (takeWhile (\<lambda>c. c = CHR ''#'') line)
      in if take 1 (drop k line) = '' '' then k else 0)"

fun section_body_claimed :: "nat \<Rightarrow> string \<Rightarrow> string" where
  "section_body_claimed level [] = []"
| "section_body_claimed level (c # cs) =
     (if c = CHR 0x0A \<and> 0 < header_level cs \<and> header_level cs \<le> level then []
      else c # section_body_claimed level cs)"

text \<open>
  Claim C5, amended: the body runs to the first line break that is followed by one, two
  or three \<^verbatim>\<open>#\<close> and a space, whatever the level of the header that opened the section.
\<close>

definition starts_header :: "string \<Rightarrow> bool" where
  "starts_header u =
     (startswith u (newline @ ''# '') \<or> startswith u (newline @ ''## '')
      \<or> startswith u (newline @ ''### ''))"

fun upto_header :: "string \<Rightarrow> string" where
  "upto_header [] = []"
| "upto_header (c # cs) = (if starts_header (c # cs) then [] else c # upto_header cs)"

text \<open>
  Example texts.  What follows a level-2 learnings header: an item, a level-3 header
  line, a second item.
\<close>

definition nested_section :: string where
  "nested_section =
     newline @ ''1. Always validate the input.'' @ newline @ ''### Note''
     @ newline @ ''2. Log every cache miss at debug.''"

text \<open>Three learnings sections; the items of the newest one are too short.\<close>

definition body_old :: string where
  "body_old = newline @ ''1. The oldest section is ignored.'' @ newline"

definition body_mid :: string where
  "body_mid = newline @ ''- The middle section is returned.'' @ newline"

definition body_new :: string where
  "body_new = newline @ ''1. too short''"

definition three_sections :: string where
  "three_sections =
     ''## Learnings'' @ body_old @ ''## Learnings'' @ body_mid @ ''## Learnings'' @ body_new"

text \<open>A numbered list of three items, the second too short.\<close>

definition three_items :: string where
  "three_items =
     ''## Learnings'' @ newline @ ''1. First item is long enough.'' @ newline @ ''2. short''
     @ newline @ ''3. Third item is long enough.''"

text \<open>A section whose numbered items all fail validation, followed by a bullet.\<close>

definition numbered_then_bullet :: string where
  "numbered_then_bullet =
     newline @ ''1. short'' @ newline @ newline @ ''2. [placeholder text of an item]''
     @ newline @ newline @ ''- A bullet item that is long enough.''"

text \<open>A transcript whose only record is an assistant message holding one text.\<close>

definition transcript_of :: "string \<Rightarrow> jline list" where
  "transcript_of text =
     [Parsed (JDict [(''type'', JStr ''assistant''),
                     (''message'', JDict [(''content'', JList
                        [JDict [(''type'', JStr ''text''), (''text'', JStr text)]])])])]"

text \<open>Example transcripts: a \<^verbatim>\<open>Task\<close> item, and a file system holding one file.\<close>

definition task_use :: "string \<Rightarrow> json" where
  "task_use agent =
     JDict [(''type'', JStr ''tool_use''), (''name'', JStr ''Task''),
            (''input'', JDict [(''subagent_type'', JStr agent)])]"

definition one_file :: "string \<Rightarrow> jline list \<Rightarrow> filesystem" where
  "one_file name ls = (\<lambda>p. if p = name then Lines ls else Missing)"

definition parent_two_shapes :: "jline list" where
  "parent_two_shapes =
     [Parsed (JDict [(''message'', JDict [(''content'', JList [task_use ''reviewer''])])]),
      Parsed (JDict [(''content'', JList [task_use ''planner''])])]"

definition parent_three_shapes :: "jline list" where
  "parent_three_shapes =
     [Parsed (JDict [(''message'', JDict [(''content'', JList [task_use ''reviewer''])])]),
      Malformed,
      Parsed (JDict [(''content'', JList [task_use ''planner''])]),
      Blank,
      Parsed (JDict [(''tool_input'', JDict [(''subagent_type'', JStr ''tester'')])])]"

text \<open>The same parent transcript, followed by a line that cannot be decoded and a record.\<close>

definition parent_cut_short :: "jline list" where
  "parent_cut_short =
     parent_three_shapes
     @ [Aborts, Parsed (JDict [(''tool_input'', JDict [(''subagent_type'', JStr ''late'')])])]"

text \<open>
  An agent transcript: an \<^verbatim>\<open>assistant\<close> record with one text block, then a \<^verbatim>\<open>user\<close>
  record with a \<^verbatim>\<open>tool_result\<close> item whose content is a string and one whose content is
  a list holding a text block with a literal backslash-n.
\<close>

definition text_block :: "string \<Rightarrow> json" where
  "text_block t = JDict [(''type'', JStr ''text''), (''text'', JStr t)]"

definition agent_two_records :: "jline list" where
  "agent_two_records =
     [Parsed (JDict [(''type'', JStr ''assistant''),
                     (''message'', JDict [(''content'', JList [text_block ''first''])])]),
      Parsed (JDict [(''type'', JStr ''user''),
                     (''message'', JDict [(''content'', JList
                        [JDict [(''type'', JStr ''tool_result''), (''content'', JStr ''plain'')],
                         JDict [(''type'', JStr ''tool_result''),
                                (''content'', JList [text_block (''a'' @ backslash_n @ ''b'')])]])])])]"

definition agent_cut_short :: "jline list" where
  "agent_cut_short =
     agent_two_records
     @ [Aborts, Parsed (JDict [(''type'', JStr ''tool_result''), (''content'', JStr ''late'')])]"

section \<open>Properties of the Markdown normalizer\<close>

subsection \<open>Substitution and whitespace lemmas\<close>

lemma scan_no_match:
  "(\<And>p k. ms fl r (MState p (drop k s) None) = []) \<Longrightarrow> scan fl r adv gap p s = ([], gap @ s)"
proof (induction s arbitrary: gap p adv)
  case Nil
  from Nil[of p 0] show ?case by (subst scan.simps) simp
next
  case (Cons c cs)
  have h: "ms fl r (MState p (c # cs) None) = []" using Cons.prems[of p 0] by simp
  have "\<And>p k. ms fl r (MState p (drop k cs) None) = []" using Cons.prems[of _ "Suc _"] by simp
  then have "scan fl r False (gap @ [c]) (Some c) cs = ([], (gap @ [c]) @ cs)" by (rule Cons.IH)
  then show ?case using h by (subst scan.simps) simp
qed

lemma sub_group1_no_match:
  "(\<And>p k. ms fl r (MState p (drop k s) None) = []) \<Longrightarrow> sub_group1 fl r s = s"
  by (simp add: sub_group1_def scan_no_match)

lemma ms_lit_none:
  "c \<notin> set t \<Longrightarrow> ms no_flags (Atom (Lit c)) (MState p t None) = []"
  by (cases t) (auto simp: no_flags_def)

lemma ms_bold_none: "CHR ''*'' \<notin> set t \<Longrightarrow> ms no_flags bold_rx (MState p t None) = []"
  unfolding bold_rx_def seqs_def lits_def by (simp add: ms_lit_none del: ms.simps(2))

lemma ms_italic_none: "CHR ''*'' \<notin> set t \<Longrightarrow> ms no_flags italic_rx (MState p t None) = []"
  unfolding italic_rx_def seqs_def lits_def by (simp add: ms_lit_none del: ms.simps(2))

lemma ms_code_none: "CHR 0x60 \<notin> set t \<Longrightarrow> ms no_flags code_rx (MState p t None) = []"
  unfolding code_rx_def seqs_def lits_def by (simp add: ms_lit_none del: ms.simps(2))

lemma notin_drop: "c \<notin> set s \<Longrightarrow> c \<notin> set (drop k s)"
  by (meson in_set_dropD)

lemma split_acc_words:
  "\<forall>c\<in>set a. \<not> isspace c \<Longrightarrow> w \<in> set (split_acc a s) \<Longrightarrow> w \<noteq> [] \<and> (\<forall>c\<in>set w. \<not> isspace c)"
proof (induction s arbitrary: a)
  case Nil
  then show ?case by (auto split: if_splits)
next
  case (Cons c cs)
  show ?case
  proof (cases "isspace c")
    case True
    then have "(w = a \<and> a \<noteq> []) \<or> w \<in> set (split_acc [] cs)"
      using Cons.prems(2) by (auto split: if_splits)
    then show ?thesis using Cons.IH [of "[]"] Cons.prems(1) by auto
  next
    case False
    then have "w \<in> set (split_acc (a @ [c]) cs)" using Cons.prems(2) by simp
    moreover have "\<forall>x\<in>set (a @ [c]). \<not> isspace x" using False Cons.prems(1) by simp
    ultimately show ?thesis using Cons.IH [of "a @ [c]"] by blast
  qed
qed

lemma split_acc_word:
  "\<forall>c\<in>set w. \<not> isspace c \<Longrightarrow> split_acc a (w @ s) = split_acc (a @ w) s"
  by (induction w arbitrary: a) auto

lemma split_acc_join:
  "\<forall>w\<in>set ws. w \<noteq> [] \<and> (\<forall>c\<in>set w. \<not> isspace c) \<Longrightarrow> split_acc [] (join '' '' ws) = ws"
proof (induction "'' ''" ws rule: join.induct)
  case 1
  then show ?case by simp
next
  case (2 x)
  then show ?case using split_acc_word[of x "[]" "[]"] by simp
next
  case (3 x y ys)
  have sp: "isspace (CHR '' '')" by (simp add: isspace_def)
  have "split_acc [] (x @ '' '' @ join '' '' (y # ys)) = split_acc x ('' '' @ join '' '' (y # ys))"
    using 3 split_acc_word[of x "[]"] by simp
  also have "\<dots> = x # split_acc [] (join '' '' (y # ys))" using 3 sp by simp
  finally show ?case using 3 by simp
qed

lemma split_join_split: "split (join '' '' (split s)) = split s"
  unfolding split_def by (rule split_acc_join) (use split_acc_words[of "[]"] in auto)

subsection \<open>Idempotence\<close>

text \<open>
  Claim C9, as stated: for every input, applying \<open>_clean_markdown\<close> twice gives the same
  result as applying it once.  It fails: each \<^verbatim>\<open>re.sub\<close> makes one pass, so markers
  nested in markers survive the first application and are removed by the second.  For
  the text of two backticks, the letter a and two backticks, the first application
  gives the letter a between single backticks, and the second gives the letter a alone.
\<close>

theorem clean_markdown_not_idempotent:
  "clean_markdown ''``a``'' = ''`a`''
   \<and> clean_markdown (clean_markdown ''``a``'') = ''a''
   \<and> clean_markdown (clean_markdown ''``a``'') \<noteq> clean_markdown ''``a``''"
proof -
  have a: "clean_markdown ''``a``'' = ''`a`''" by code_simp
  have b: "clean_markdown ''`a`'' = ''a''" by code_simp
  show ?thesis unfolding a b by simp
qed

text \<open>
  Claim C9, amended: whenever the result of \<open>_clean_markdown\<close> holds no asterisk and no
  backtick, it is a fixed point: applying the function again returns it unchanged.
\<close>

theorem clean_markdown_fixed_point:
  assumes "CHR ''*'' \<notin> set (clean_markdown s)" and "CHR 0x60 \<notin> set (clean_markdown s)"
  shows "clean_markdown (clean_markdown s) = clean_markdown s"
proof -
  let ?t = "clean_markdown s"
  define t3 where "t3 = sub_group1 no_flags italic_rx
    (sub_group1 no_flags code_rx (sub_group1 no_flags bold_rx s))"
  have e: "clean_markdown s = join '' '' (split t3)"
    unfolding t3_def clean_markdown_def Let_def ..
  have b: "sub_group1 no_flags bold_rx ?t = ?t"
    by (rule sub_group1_no_match) (simp add: ms_bold_none notin_drop assms)
  have c: "sub_group1 no_flags code_rx ?t = ?t"
    by (rule sub_group1_no_match) (simp add: ms_code_none notin_drop assms)
  have i: "sub_group1 no_flags italic_rx ?t = ?t"
    by (rule sub_group1_no_match) (simp add: ms_italic_none notin_drop assms)
  have "clean_markdown ?t = join '' '' (split ?t)"
    by (subst (1) clean_markdown_def) (simp add: b c i Let_def)
  also have "\<dots> = ?t"
    unfolding e by (simp add: split_join_split)
  finally show ?thesis .
qed

theorem clean_markdown_fixed_point_witness:
  "CHR ''*'' \<notin> set (clean_markdown ''**Use async** for `I/O`'')
   \<and> CHR 0x60 \<notin> set (clean_markdown ''**Use async** for `I/O`'')
   \<and> clean_markdown ''**Use async** for `I/O`'' = ''Use async for I/O''
   \<and> clean_markdown (clean_markdown ''**Use async** for `I/O`'') = ''Use async for I/O''"
proof -
  have v: "clean_markdown ''**Use async** for `I/O`'' = ''Use async for I/O''"
    by code_simp
  have h1: "CHR ''*'' \<notin> set (clean_markdown ''**Use async** for `I/O`'')"
    unfolding v by simp
  have h2: "CHR 0x60 \<notin> set (clean_markdown ''**Use async** for `I/O`'')"
    unfolding v by simp
  show ?thesis
    by (intro conjI h1 h2 v trans [OF clean_markdown_fixed_point [OF h1 h2] v])
qed



section \<open>Properties of the Engram calls and of main\<close>

text \<open>
  Claim C8, as stated: the service counts as available exactly for a 2xx answer to
  \<^verbatim>\<open>GET /health\<close>, and a submission yields an observation id only for a 2xx answer.  It
  fails: \<^verbatim>\<open>resp.ok\<close> is true for every status outside 400 to 599.  A 304 answer makes
  \<open>check_engram_health\<close> report the service available, and a 300 answer whose body is
  \<^verbatim>\<open>{"id": "obs-1"}\<close> makes \<open>save_to_engram\<close> return \<^verbatim>\<open>"obs-1"\<close>.
\<close>

theorem resp_ok_beyond_2xx:
  "check_engram_health (Response 304 None)
   \<and> \<not> is_2xx 304
   \<and> save_to_engram (Response 300 (Some (JDict [(''id'', JStr ''obs-1'')]))) = JStr ''obs-1''
   \<and> \<not> is_2xx 300"
  by (simp add: check_engram_health_def save_to_engram_def ok_def is_2xx_def dict_get_def)

lemma py_get_not_null:
  "(case py_get data k JNull of Inl e \<Rightarrow> JNull | Inr v \<Rightarrow> v) \<noteq> JNull \<Longrightarrow>
   \<exists>d. data = JDict d
       \<and> map_of d k = Some (case py_get data k JNull of Inl e \<Rightarrow> JNull | Inr v \<Rightarrow> v)"
  by (cases data) (auto simp: dict_get_def split: option.splits)

text \<open>
  Claim C8, amended: \<open>check_engram_health\<close> reports the service available exactly when
  the request returns a response whose status is outside 400 to 599, hence for every 2xx
  status; \<open>save_to_engram\<close> returns a value other than \<^verbatim>\<open>None\<close> only for a response
  with such a status whose JSON body is an object with an \<^verbatim>\<open>id\<close> field, and then
  returns that field.
\<close>

theorem engram_http_contract:
  "(check_engram_health resp \<longleftrightarrow> (\<exists>st b. resp = Response st b \<and> (st < 400 \<or> 600 \<le> st)))
   \<and> (\<forall>st b. is_2xx st \<longrightarrow> check_engram_health (Response st b))
   \<and> (save_to_engram resp \<noteq> JNull \<longrightarrow>
        (\<exists>st d. resp = Response st (Some (JDict d)) \<and> (st < 400 \<or> 600 \<le> st)
                \<and> map_of d ''id'' = Some (save_to_engram resp)))
   \<and> (\<forall>st d v. resp = Response st (Some (JDict d)) \<and> (st < 400 \<or> 600 \<le> st)
                \<and> map_of d ''id'' = Some v \<longrightarrow> save_to_engram resp = v)"
proof (intro conjI allI impI)
  show "check_engram_health resp \<longleftrightarrow> (\<exists>st b. resp = Response st b \<and> (st < 400 \<or> 600 \<le> st))"
    by (cases resp) (auto simp: check_engram_health_def ok_def)
next
  fix st b assume "is_2xx st"
  then show "check_engram_health (Response st b)"
    by (simp add: check_engram_health_def ok_def is_2xx_def)
next
  assume n: "save_to_engram resp \<noteq> JNull"
  show "\<exists>st d. resp = Response st (Some (JDict d)) \<and> (st < 400 \<or> 600 \<le> st)
                \<and> map_of d ''id'' = Some (save_to_engram resp)"
    using n
    by (cases resp)
       (auto simp: save_to_engram_def ok_def
             split: option.splits if_splits dest: py_get_not_null)
next
  fix st d v
  assume "resp = Response st (Some (JDict d)) \<and> (st < 400 \<or> 600 \<le> st) \<and> map_of d ''id'' = Some v"
  then show "save_to_engram resp = v"
    by (auto simp: save_to_engram_def ok_def dict_get_def)
qed

theorem engram_http_contract_witness:
  "check_engram_health (Response 200 (Some (JDict [(''id'', JStr ''obs-1'')])))
   \<and> is_2xx 200
   \<and> save_to_engram (Response 200 (Some (JDict [(''id'', JStr ''obs-1'')]))) = JStr ''obs-1''
   \<and> save_to_engram (Response 200 (Some (JDict [(''id'', JStr ''obs-1'')]))) \<noteq> JNull"
  using engram_http_contract [of "Response 200 (Some (JDict [(''id'', JStr ''obs-1'')]))"]
  by (simp add: is_2xx_def)

lemma main_try_signal:
  "main_try w = Inl (SystemExit n) \<Longrightarrow> n = 0"
  unfolding main_try_def Let_def
  by (auto split: stdin_input.splits sum.splits if_splits json.splits)

lemma main_exits_0_after_log_setup:
  "\<not> log_setup_fails w \<Longrightarrow> exit_status (main w) = 0"
  using main_try_signal [of w]
  by (auto simp: main_def exit_status_def split: sum.splits signal.splits)

text \<open>
  Claim C1: every invocation of \<open>main\<close> ends with exit status 0.  Once \<open>setup_logging\<close>
  has returned it does (\<open>main_exits_0_after_log_setup\<close>), but the call stands before
  the \<^verbatim>\<open>try\<close>: when the log directory cannot be created or the log file cannot be
  opened, the exception reaches the top level and the exit status is 1.
\<close>

theorem main_crashes_when_log_setup_fails:
  "main blocked_log_world = Crashed OSError \<and> exit_status (main blocked_log_world) = 1"
  by (simp add: main_def blocked_log_world_def exit_status_def)

section \<open>Properties of the agent detection\<close>

lemma py_get_cases:
  "py_get x k dflt = (case x of JDict d \<Rightarrow> Inr (dict_get d k dflt) | _ \<Rightarrow> Inl AttributeError)"
  by (cases x) simp_all

lemma py_index_cases:
  "py_index x k =
     (case x of
        JDict d \<Rightarrow> (case map_of d k of Some v \<Rightarrow> Inr v | None \<Rightarrow> Inl KeyError)
      | _ \<Rightarrow> Inl TypeError)"
  by (cases x) simp_all

lemma py_in_cases:
  "py_in k x =
     (case x of
        JDict d \<Rightarrow> Inr (k \<in> set (map fst d))
      | JList xs \<Rightarrow> Inr (JStr k \<in> set xs)
      | JStr s \<Rightarrow> Inr (is_substring k s)
      | _ \<Rightarrow> Inl TypeError)"
  by (cases x) simp_all

lemma task_items_snd: "snd (task_items found items) = snd (task_items [] items)"
proof (induction items arbitrary: found)
  case Nil
  then show ?case by simp
next
  case (Cons item items)
  show ?case
    using Cons.IH [of "found @ _"] Cons.IH [of found] Cons.IH [of "[_]"]
    by (cases item) (auto split: sum.splits)
qed

lemma task_items_fst: "fst (task_items found items) = found @ fst (task_items [] items)"
proof (induction items arbitrary: found)
  case Nil
  then show ?case by simp
next
  case (Cons item items)
  show ?case
    using Cons.IH [of "found @ _"] Cons.IH [of found] Cons.IH [of "[_]"]
    by (cases item) (auto split: sum.splits)
qed

lemma task_items_matches:
  "snd (task_items [] items) = None \<Longrightarrow>
   fst (task_items [] items) = concat (map task_subagent items)"
proof (induction items)
  case Nil
  then show ?case by simp
next
  case (Cons item items)
  show ?case
    using Cons.prems Cons.IH task_items_snd [of "[_]" items] task_items_fst [of "[_]" items]
    by (cases item)
       (auto simp: task_subagent_def py_get_cases split: sum.splits json.splits if_splits)
qed

lemma task_items_ok:
  "snd (task_items [] items) = None \<Longrightarrow>
   task_items found items = (found @ concat (map task_subagent items), None)"
  using task_items_snd [of found items] task_items_fst [of found items] task_items_matches [of items]
  by (simp add: prod_eq_iff)

lemma map_of_key: "(k \<in> fst ` set d) = (map_of d k \<noteq> None)"
  by (simp add: map_of_eq_None_iff)

lemma entry_tool_input_ok:
  "snd (entry_tool_input [] entry) = None \<Longrightarrow>
   entry_tool_input found entry = (found @ tool_input_matches entry, None)"
  by (cases entry)
     (auto simp: entry_tool_input_def tool_input_matches_def py_in_cases py_index_cases
                 py_get_cases map_of_key
           split: sum.splits json.splits if_splits option.splits bool.splits)

lemma entry_tool_input_snd:
  "snd (entry_tool_input found entry) = snd (entry_tool_input [] entry)"
  by (cases entry)
     (auto simp: entry_tool_input_def py_in_cases py_index_cases py_get_cases
           split: sum.splits json.splits if_splits option.splits bool.splits)


lemma entry_content_matches:
  "entry_content entry = Inr content \<Longrightarrow>
   concat (map task_subagent (content_list content)) = message_matches entry @ content_matches entry"
  by (cases entry)
     (auto simp: entry_content_def message_matches_def content_matches_def content_list_def
                 py_in_cases py_index_cases py_get_cases map_of_key dict_get_def
           split: sum.splits json.splits if_splits option.splits bool.splits)

lemma detect_entry_ok:
  assumes "\<not> entry_raises entry"
  shows "detect_entry found entry =
         (found @ message_matches entry @ content_matches entry @ tool_input_matches entry, None)"
proof -
  from assms have nr: "snd (detect_entry [] entry) = None"
    by (simp add: entry_raises_def)
  then obtain content where c: "entry_content entry = Inr content"
    by (cases "entry_content entry") (auto simp: detect_entry_def)
  note m = entry_content_matches [OF c]
  show ?thesis
  proof (cases content)
    case (JList items)
    have i: "snd (task_items [] items) = None"
      using nr c JList by (auto simp: detect_entry_def split: prod.splits option.splits)
    have t: "snd (entry_tool_input [] entry) = None"
      using nr c JList i task_items_ok [OF i, of "[]"]
        entry_tool_input_snd [of "concat (map task_subagent items)" entry]
      by (simp add: detect_entry_def)
    show ?thesis
      using c JList m task_items_ok [OF i, of found] entry_tool_input_ok [OF t]
      by (simp add: detect_entry_def content_list_def)
  qed (use nr c m entry_tool_input_ok [of entry found] in
         \<open>simp_all add: detect_entry_def content_list_def\<close>)
qed

lemma task_items_no_raise:
  "list_all task_item_ok items \<Longrightarrow> snd (task_items found items) = None"
proof (induction items arbitrary: found)
  case Nil
  then show ?case by simp
next
  case (Cons item items)
  from Cons.prems have ok: "task_item_ok item" and r: "list_all task_item_ok items"
    by simp_all
  note step = Cons.IH [OF r]
  show ?case
  proof (cases item)
    case (JDict d)
    show ?thesis
    proof (cases "dict_get d ''type'' JNull = JStr ''tool_use''
                  \<and> dict_get d ''name'' JNull = JStr ''Task''")
      case True
      with ok JDict obtain inp where i: "dict_get d ''input'' (JDict []) = JDict inp"
        by (cases "dict_get d ''input'' (JDict [])") (simp_all add: task_item_ok_def is_dict_def)
      show ?thesis using JDict True i step by simp
    next
      case False
      then show ?thesis using JDict step by auto
    qed
  qed (use step in simp_all)
qed

lemma record_ok_no_raise:
  assumes "record_ok entry"
  shows "\<not> entry_raises entry"
proof -
  from assms obtain d where d: "entry = JDict d"
    by (cases entry) (simp_all add: record_ok_def)
  have t: "snd (entry_tool_input found (JDict d)) = None" for found
    using assms d
    by (cases "map_of d ''tool_input''")
       (auto simp: record_ok_def entry_tool_input_def map_of_key is_dict_def py_get_cases
             split: json.splits)
  show ?thesis
  proof (cases "map_of d ''message''")
    case None
    then have c: "entry_content entry = Inr (dict_get d ''content'' JNull)"
      using d by (auto simp: entry_content_def map_of_key dict_get_def split: option.splits)
    from assms d None have i: "list_all task_item_ok (content_list (dict_get d ''content'' JNull))"
      by (simp add: record_ok_def)
    show ?thesis
    proof (cases "dict_get d ''content'' JNull")
      case (JList items)
      with i have "snd (task_items [] items) = None"
        by (simp add: task_items_no_raise content_list_def)
      then obtain f1 where "task_items [] items = (f1, None)"
        by (cases "task_items [] items") simp
      with c JList d t [of f1] show ?thesis
        by (simp add: entry_raises_def detect_entry_def)
    qed (use c d t [of "[]"] in \<open>simp_all add: entry_raises_def detect_entry_def\<close>)
  next
    case (Some m)
    with assms d obtain md where md: "m = JDict md"
      and i: "list_all task_item_ok (content_list (dict_get md ''content'' (JList [])))"
      by (cases m) (simp_all add: record_ok_def)
    from Some md have c: "entry_content entry = Inr (dict_get md ''content'' (JList []))"
      using d by (auto simp: entry_content_def map_of_key)
    show ?thesis
    proof (cases "dict_get md ''content'' (JList [])")
      case (JList items)
      with i have "snd (task_items [] items) = None"
        by (simp add: task_items_no_raise content_list_def)
      then obtain f1 where "task_items [] items = (f1, None)"
        by (cases "task_items [] items") simp
      with c JList d t [of f1] show ?thesis
        by (simp add: entry_raises_def detect_entry_def)
    qed (use c d t [of "[]"] in \<open>simp_all add: entry_raises_def detect_entry_def\<close>)
  qed
qed

lemma detect_lines_ok:
  "list_all line_ok ls \<Longrightarrow>
   detect_lines found ls =
   found @ concat (map (\<lambda>entry. message_matches entry @ content_matches entry
                                 @ tool_input_matches entry) (parsed_entries ls))"
proof (induction ls arbitrary: found)
  case Nil
  then show ?case by (simp add: parsed_entries_def)
next
  case (Cons l ls)
  from Cons.prems have l: "line_ok l" and r: "list_all line_ok ls" by simp_all
  show ?case
  proof (cases l)
    case (Parsed entry)
    with l have "record_ok entry" by (simp add: line_ok_def)
    then have e: "\<not> entry_raises entry" by (rule record_ok_no_raise)
    show ?thesis
      using Parsed detect_entry_ok [OF e, of found] Cons.IH [OF r]
      by (simp add: parsed_entries_def)
  next
    case Aborts
    with l show ?thesis by (simp add: line_ok_def)
  qed (use Cons.IH [OF r] in \<open>simp_all add: parsed_entries_def\<close>)
qed

lemma detect_lines_scanned: "detect_lines found ls = detect_lines found (scanned ls)"
proof (induction ls arbitrary: found)
  case Nil
  then show ?case by (simp add: scanned_def)
next
  case (Cons l ls)
  note ih = Cons.IH [unfolded scanned_def]
  show ?case
  proof (cases l)
    case (Parsed entry)
    obtain f1 x where d: "detect_entry found entry = (f1, x)"
      by (cases "detect_entry found entry")
    with Parsed ih [of f1] show ?thesis by (cases x) (simp_all add: scanned_def)
  qed (use ih [of found] in \<open>simp_all add: scanned_def\<close>)
qed

text \<open>
  Claim C6, amended.  Let the existence check of the path not raise, and let every line
  the scan reaches be blank, refused with \<^verbatim>\<open>JSONDecodeError\<close>, or a JSON object whose
  \<^verbatim>\<open>message\<close> and \<^verbatim>\<open>tool_input\<close>, where present, are objects and in whose scanned
  content list the \<^verbatim>\<open>input\<close> of every \<^verbatim>\<open>Task\<close> item, where present, is an object.
  The scan reaches the lines before the first one at which reading or parsing raises
  another exception.  Then \<open>detect_agent_name\<close> returns the last element of the list
  that holds, in file order over those lines, the truthy \<^verbatim>\<open>subagent_type\<close> of every
  \<^verbatim>\<open>Task\<close> item of a message content list, of every \<^verbatim>\<open>Task\<close> item of a top-level
  content list of a record without \<^verbatim>\<open>message\<close>, and of every top-level
  \<^verbatim>\<open>tool_input\<close>; it returns \<^verbatim>\<open>"unknown"\<close> when that list is empty, when the path is
  empty or names no file, and when the file cannot be opened.
\<close>

theorem detect_agent_name_last_match:
  assumes "p = [] \<or> fs p \<noteq> Inaccessible"
    and "\<forall>ls. fs p = Lines ls \<longrightarrow> list_all line_ok (scanned ls)"
  shows "detect_agent_name fs p =
         Inr (if p = [] then JStr ''unknown''
              else case fs p of
                Lines ls \<Rightarrow>
                  last_or_unknown
                    (concat (map (\<lambda>entry. message_matches entry @ content_matches entry
                                           @ tool_input_matches entry)
                               (parsed_entries (scanned ls))))
              | _ \<Rightarrow> JStr ''unknown'')"
proof (cases "fs p")
  case (Lines ls)
  with assms have "list_all line_ok (scanned ls)" by simp
  from detect_lines_ok [OF this, of "[]"] detect_lines_scanned [of "[]" ls] Lines
  show ?thesis
    by (simp add: detect_agent_name_def last_or_unknown_def Let_def)
next
  case Inaccessible
  with assms show ?thesis by (simp add: detect_agent_name_def)
qed (simp_all add: detect_agent_name_def)

text \<open>
  Claim C6, as stated: the list holds the matches of two shapes, \<^verbatim>\<open>Task\<close> items in a
  message content list and a top-level \<^verbatim>\<open>tool_input.subagent_type\<close>.  It fails: the
  program also reads a top-level \<^verbatim>\<open>content\<close> list of a record without \<^verbatim>\<open>message\<close>
  (its \<^verbatim>\<open>elif "content" in entry\<close>).  For a file whose first record dispatches
  \<^verbatim>\<open>reviewer\<close> in a message content list and whose second record dispatches
  \<^verbatim>\<open>planner\<close> in a top-level content list, the program returns \<^verbatim>\<open>planner\<close>, the claim
  \<^verbatim>\<open>reviewer\<close>.
\<close>

theorem detect_agent_name_top_level_content:
  "detect_agent_name (one_file ''parent.jsonl'' parent_two_shapes) ''parent.jsonl''
     = Inr (JStr ''planner'')
   \<and> detect_agent_name_claimed (one_file ''parent.jsonl'' parent_two_shapes) ''parent.jsonl''
       = JStr ''reviewer''"
  by code_simp

theorem detect_agent_name_last_match_witness:
  "list_all line_ok (scanned parent_three_shapes)
   \<and> detect_agent_name (one_file ''parent.jsonl'' parent_three_shapes) ''parent.jsonl''
       = Inr (JStr ''tester'')
   \<and> list_all line_ok (scanned parent_cut_short)
   \<and> detect_agent_name (one_file ''parent.jsonl'' parent_cut_short) ''parent.jsonl''
       = Inr (JStr ''tester'')
   \<and> detect_agent_name (one_file ''parent.jsonl'' parent_three_shapes) ''other.jsonl''
       = Inr (JStr ''unknown'')"
proof -
  have a: "list_all line_ok (scanned parent_three_shapes)"
    by code_simp
  have a': "list_all line_ok (scanned parent_cut_short)"
    by code_simp
  have h: "\<forall>ls. one_file ''parent.jsonl'' parent_three_shapes ''parent.jsonl'' = Lines ls \<longrightarrow>
             list_all line_ok (scanned ls)"
    using a by (simp add: one_file_def)
  have k: "\<forall>ls. one_file ''parent.jsonl'' parent_cut_short ''parent.jsonl'' = Lines ls \<longrightarrow>
             list_all line_ok (scanned ls)"
    using a' by (simp add: one_file_def)
  have h': "\<forall>ls. one_file ''parent.jsonl'' parent_three_shapes ''other.jsonl'' = Lines ls \<longrightarrow>
             list_all line_ok (scanned ls)"
    by (simp add: one_file_def)
  have v: "last_or_unknown
             (concat (map (\<lambda>entry. message_matches entry @ content_matches entry
                                    @ tool_input_matches entry)
                        (parsed_entries (scanned parent_three_shapes)))) = JStr ''tester''"
    by code_simp
  have v': "last_or_unknown
             (concat (map (\<lambda>entry. message_matches entry @ content_matches entry
                                    @ tool_input_matches entry)
                        (parsed_entries (scanned parent_cut_short)))) = JStr ''tester''"
    by code_simp
  have b: "detect_agent_name (one_file ''parent.jsonl'' parent_three_shapes) ''parent.jsonl''
           = Inr (JStr ''tester'')"
    using detect_agent_name_last_match
            [of "''parent.jsonl''" "one_file ''parent.jsonl'' parent_three_shapes"] h v
    by (simp add: one_file_def)
  have b': "detect_agent_name (one_file ''parent.jsonl'' parent_cut_short) ''parent.jsonl''
           = Inr (JStr ''tester'')"
    using detect_agent_name_last_match
            [of "''parent.jsonl''" "one_file ''parent.jsonl'' parent_cut_short"] k v'
    by (simp add: one_file_def)
  have c: "detect_agent_name (one_file ''parent.jsonl'' parent_three_shapes) ''other.jsonl''
           = Inr (JStr ''unknown'')"
    using detect_agent_name_last_match
            [of "''other.jsonl''" "one_file ''parent.jsonl'' parent_three_shapes"] h'
    by (simp add: one_file_def)
  show ?thesis by (intro conjI a b a' b' c)
qed

subsection \<open>Every value collected is truthy\<close>

lemma task_items_truthy:
  "\<forall>v\<in>set found. truthy v \<Longrightarrow> \<forall>v\<in>set (fst (task_items found items)). truthy v"
proof (induction items arbitrary: found)
  case Nil
  then show ?case by simp
next
  case (Cons item items)
  note step = Cons.IH
  show ?case
  proof (cases item)
    case (JDict d)
    show ?thesis
    proof (cases "dict_get d ''type'' JNull = JStr ''tool_use''
                  \<and> dict_get d ''name'' JNull = JStr ''Task''")
      case True
      show ?thesis
      proof (cases "py_get (dict_get d ''input'' (JDict [])) ''subagent_type'' JNull")
        case (Inl e)
        with JDict True Cons.prems show ?thesis by simp
      next
        case (Inr v)
        have p: "\<forall>x\<in>set (if truthy v then found @ [v] else found). truthy x"
          using Cons.prems by simp
        have eq: "task_items found (item # items)
                  = task_items (if truthy v then found @ [v] else found) items"
          unfolding JDict using True Inr by (simp del: py_get.simps)
        show ?thesis unfolding eq by (rule step [OF p])
      qed
    next
      case False
      have eq: "task_items found (item # items) = task_items found items"
        unfolding JDict using False by auto
      show ?thesis unfolding eq by (rule step [OF Cons.prems])
    qed
  next
    case JNull
    then have eq: "task_items found (item # items) = task_items found items" by simp
    show ?thesis unfolding eq by (rule step [OF Cons.prems])
  next
    case (JBool b)
    then have eq: "task_items found (item # items) = task_items found items" by simp
    show ?thesis unfolding eq by (rule step [OF Cons.prems])
  next
    case (JInt n)
    then have eq: "task_items found (item # items) = task_items found items" by simp
    show ?thesis unfolding eq by (rule step [OF Cons.prems])
  next
    case (JFloat r)
    then have eq: "task_items found (item # items) = task_items found items" by simp
    show ?thesis unfolding eq by (rule step [OF Cons.prems])
  next
    case (JStr t)
    then have eq: "task_items found (item # items) = task_items found items" by simp
    show ?thesis unfolding eq by (rule step [OF Cons.prems])
  next
    case (JList xs)
    then have eq: "task_items found (item # items) = task_items found items" by simp
    show ?thesis unfolding eq by (rule step [OF Cons.prems])
  qed
qed

lemma entry_tool_input_truthy:
  "\<forall>v\<in>set found. truthy v \<Longrightarrow> \<forall>v\<in>set (fst (entry_tool_input found entry)). truthy v"
  by (auto simp: entry_tool_input_def split: sum.splits bool.splits)

lemma detect_entry_truthy:
  assumes "\<forall>v\<in>set found. truthy v"
  shows "\<forall>v\<in>set (fst (detect_entry found entry)). truthy v"
proof (cases "entry_content entry")
  case (Inl e)
  with assms show ?thesis by (simp add: detect_entry_def)
next
  case (Inr content)
  show ?thesis
  proof (cases content)
    case (JList items)
    obtain f1 x where t: "task_items found items = (f1, x)" by (cases "task_items found items")
    with task_items_truthy [OF assms, of items] have "\<forall>v\<in>set f1. truthy v" by simp
    with entry_tool_input_truthy [of f1 entry] Inr JList t show ?thesis
      by (cases x) (simp_all add: detect_entry_def)
  qed (use Inr assms entry_tool_input_truthy [of found entry] in
         \<open>simp_all add: detect_entry_def\<close>)
qed

lemma detect_lines_truthy:
  "\<forall>v\<in>set found. truthy v \<Longrightarrow> \<forall>v\<in>set (detect_lines found ls). truthy v"
proof (induction ls arbitrary: found)
  case Nil
  then show ?case by simp
next
  case (Cons l ls)
  show ?case
  proof (cases l)
    case (Parsed entry)
    obtain f1 x where d: "detect_entry found entry = (f1, x)"
      by (cases "detect_entry found entry")
    with detect_entry_truthy [OF Cons.prems, of entry] have f: "\<forall>v\<in>set f1. truthy v"
      by simp
    show ?thesis
    proof (cases x)
      case None
      with Parsed d have "detect_lines found (l # ls) = detect_lines f1 ls" by simp
      with Cons.IH [OF f] show ?thesis by simp
    next
      case (Some e)
      with Parsed d have "detect_lines found (l # ls) = f1" by simp
      with f show ?thesis by simp
    qed
  next
    case Blank
    with Cons.IH [OF Cons.prems] show ?thesis by simp
  next
    case Malformed
    with Cons.IH [OF Cons.prems] show ?thesis by simp
  next
    case Aborts
    with Cons.prems show ?thesis by simp
  qed
qed

text \<open>
  Claim C10: \<open>detect_agent_name\<close> never returns the empty string.  Both shapes append a
  value only when it is truthy, so whatever the files hold, a value the function returns
  is truthy: a detected value, or \<^verbatim>\<open>"unknown"\<close>.  And it returns a value whenever the
  existence check of the path does not raise.
\<close>

theorem detect_agent_name_never_empty:
  "(\<forall>v. detect_agent_name fs p = Inr v \<longrightarrow> truthy v \<and> v \<noteq> JStr [])
   \<and> (p = [] \<or> fs p \<noteq> Inaccessible \<longrightarrow> (\<exists>v. detect_agent_name fs p = Inr v))"
proof (intro conjI allI impI)
  fix v
  assume r: "detect_agent_name fs p = Inr v"
  show "truthy v"
  proof (cases "fs p")
    case (Lines ls)
    have "\<forall>x\<in>set (detect_lines [] ls). truthy x" by (rule detect_lines_truthy) simp
    then have "detect_lines [] ls \<noteq> [] \<Longrightarrow> truthy (last (detect_lines [] ls))"
      using last_in_set by blast
    with Lines r show ?thesis
      by (auto simp: detect_agent_name_def Let_def split: if_splits)
  qed (use r in \<open>auto simp: detect_agent_name_def split: if_splits\<close>)
  then show "v \<noteq> JStr []" by auto
next
  assume "p = [] \<or> fs p \<noteq> Inaccessible"
  then show "\<exists>v. detect_agent_name fs p = Inr v"
    by (cases "fs p") (auto simp: detect_agent_name_def Let_def)
qed

theorem detect_agent_name_never_empty_witness:
  "detect_agent_name (one_file ''parent.jsonl'' parent_three_shapes) ''parent.jsonl''
     = Inr (JStr ''tester'')
   \<and> truthy (JStr ''tester'') \<and> JStr ''tester'' \<noteq> JStr []
   \<and> one_file ''parent.jsonl'' parent_three_shapes ''parent.jsonl'' \<noteq> Inaccessible"
proof -
  have r: "detect_agent_name (one_file ''parent.jsonl'' parent_three_shapes) ''parent.jsonl''
           = Inr (JStr ''tester'')"
    by code_simp
  have n: "one_file ''parent.jsonl'' parent_three_shapes ''parent.jsonl'' \<noteq> Inaccessible"
    by (simp add: one_file_def)
  from detect_agent_name_never_empty
         [of "one_file ''parent.jsonl'' parent_three_shapes" "''parent.jsonl''"] r
  have "truthy (JStr ''tester'') \<and> JStr ''tester'' \<noteq> JStr []" by blast
  with r n show ?thesis by (intro conjI) simp_all
qed

section \<open>Properties of the text reconstruction\<close>

lemma assistant_items_eq:
  "assistant_items parts items = parts @ concat (map block_text items)"
proof (induction items arbitrary: parts)
  case Nil
  then show ?case by simp
next
  case (Cons item items)
  show ?case
    by (cases item) (simp_all add: Cons.IH block_text_def Let_def)
qed

lemma result_blocks_snd: "snd (result_blocks parts blocks) = snd (result_blocks [] blocks)"
proof (induction blocks arbitrary: parts)
  case Nil
  then show ?case by simp
next
  case (Cons block blocks)
  show ?case
    using Cons.IH [of "parts @ _"] Cons.IH [of parts] Cons.IH [of "[_]"]
    by (cases block) (auto simp: Let_def split: json.splits)
qed

lemma result_blocks_fst:
  "fst (result_blocks parts blocks) = parts @ fst (result_blocks [] blocks)"
proof (induction blocks arbitrary: parts)
  case Nil
  then show ?case by simp
next
  case (Cons block blocks)
  show ?case
    using Cons.IH [of "parts @ _"] Cons.IH [of parts] Cons.IH [of "[_]"]
    by (cases block) (auto simp: Let_def split: json.splits)
qed

lemma result_blocks_matches:
  "snd (result_blocks [] blocks) = None \<Longrightarrow>
   fst (result_blocks [] blocks) = map unescape (concat (map block_text blocks))"
proof (induction blocks)
  case Nil
  then show ?case by simp
next
  case (Cons block blocks)
  show ?case
    using Cons.prems Cons.IH result_blocks_snd [of "[_]" blocks] result_blocks_fst [of "[_]" blocks]
    by (cases block)
       (auto simp: block_text_def unescape_def Let_def split: json.splits if_splits)
qed


lemma result_blocks_ok:
  "snd (result_blocks [] blocks) = None \<Longrightarrow>
   result_blocks parts blocks = (parts @ map unescape (concat (map block_text blocks)), None)"
  using result_blocks_snd [of parts blocks] result_blocks_fst [of parts blocks]
    result_blocks_matches [of blocks]
  by (simp add: prod_eq_iff)

lemma user_items_snd: "snd (user_items parts items) = snd (user_items [] items)"
proof (induction items arbitrary: parts)
  case Nil
  then show ?case by simp
next
  case (Cons item items)
  have skip: "\<And>q. snd (user_items q items) = snd (user_items [] items)" by (rule Cons.IH)
  show ?case
  proof (cases item)
    case (JDict d)
    show ?thesis
    proof (cases "dict_get d ''type'' JNull = JStr ''tool_result''")
      case True
      show ?thesis
      proof (cases "dict_get d ''content'' (JStr [])")
        case (JList blocks)
        obtain q x where r: "result_blocks parts blocks = (q, x)"
          by (cases "result_blocks parts blocks")
        obtain q0 x0 where r0: "result_blocks [] blocks = (q0, x0)"
          by (cases "result_blocks [] blocks")
        have "x = x0" using result_blocks_snd [of parts blocks] r r0 by simp
        then show ?thesis
          using JDict True JList r r0 skip [of q] skip [of q0]
          by (cases x0) simp_all
      qed (use JDict True skip [of parts] in simp_all)
    next
      case False
      then show ?thesis using JDict skip [of parts] by simp
    qed
  qed (use skip [of parts] in simp_all)
qed

lemma user_items_fst: "fst (user_items parts items) = parts @ fst (user_items [] items)"
proof (induction items arbitrary: parts)
  case Nil
  then show ?case by simp
next
  case (Cons item items)
  have skip: "\<And>q. fst (user_items q items) = q @ fst (user_items [] items)" by (rule Cons.IH)
  show ?case
  proof (cases item)
    case (JDict d)
    show ?thesis
    proof (cases "dict_get d ''type'' JNull = JStr ''tool_result''")
      case True
      show ?thesis
      proof (cases "dict_get d ''content'' (JStr [])")
        case (JList blocks)
        obtain q x where r: "result_blocks parts blocks = (q, x)"
          by (cases "result_blocks parts blocks")
        obtain q0 x0 where r0: "result_blocks [] blocks = (q0, x0)"
          by (cases "result_blocks [] blocks")
        have "x = x0" using result_blocks_snd [of parts blocks] r r0 by simp
        moreover have "q = parts @ q0" using result_blocks_fst [of parts blocks] r r0 by simp
        ultimately show ?thesis
          using JDict True JList r r0 skip [of q] skip [of q0]
          by (cases x0) simp_all
      qed (use JDict True skip [of parts] in simp_all)
    next
      case False
      then show ?thesis using JDict skip [of parts] by simp
    qed
  qed (use skip [of parts] in simp_all)
qed

lemma user_items_matches:
  "snd (user_items [] items) = None \<Longrightarrow>
   fst (user_items [] items) = concat (map tool_result_fragments items)"
proof (induction items)
  case Nil
  then show ?case by simp
next
  case (Cons item items)
  show ?case
  proof (cases item)
    case (JDict d)
    show ?thesis
    proof (cases "dict_get d ''type'' JNull = JStr ''tool_result''")
      case True
      show ?thesis
      proof (cases "dict_get d ''content'' (JStr [])")
        case (JList blocks)
        obtain q0 x0 where r0: "result_blocks [] blocks = (q0, x0)"
          by (cases "result_blocks [] blocks")
        have x0: "x0 = None"
          using Cons.prems JDict True JList r0 by (cases x0) simp_all
        then have q0: "q0 = map unescape (concat (map block_text blocks))"
          using result_blocks_matches [of blocks] r0 by simp
        have s: "snd (user_items [] items) = None"
          using Cons.prems JDict True JList r0 x0 user_items_snd [of q0 items] by simp
        show ?thesis
          using JDict True JList r0 x0 q0 user_items_fst [of q0 items] Cons.IH [OF s]
          by (simp add: tool_result_fragments_def)
      qed (use JDict True Cons in \<open>simp_all add: tool_result_fragments_def\<close>)
    next
      case False
      then show ?thesis using JDict Cons by (simp add: tool_result_fragments_def)
    qed
  qed (use Cons in \<open>simp_all add: tool_result_fragments_def\<close>)
qed

lemma user_items_ok:
  "snd (user_items [] items) = None \<Longrightarrow>
   user_items parts items = (parts @ concat (map tool_result_fragments items), None)"
  using user_items_snd [of parts items] user_items_fst [of parts items]
    user_items_matches [of items]
  by (simp add: prod_eq_iff)


lemma result_blocks_no_raise:
  "list_all text_block_ok blocks \<Longrightarrow> snd (result_blocks [] blocks) = None"
proof (induction blocks)
  case Nil
  then show ?case by simp
next
  case (Cons block blocks)
  from Cons.prems have b: "text_block_ok block" and r: "list_all text_block_ok blocks"
    by simp_all
  have s: "\<And>q. snd (result_blocks q blocks) = None"
    by (subst result_blocks_snd) (rule Cons.IH [OF r])
  show ?case
  proof (cases block)
    case (JDict d)
    show ?thesis
    proof (cases "dict_get d ''type'' JNull = JStr ''text'' \<and> truthy (dict_get d ''text'' (JStr []))")
      case True
      with b JDict obtain t where t: "dict_get d ''text'' (JStr []) = JStr t"
        by (cases "dict_get d ''text'' (JStr [])") (simp_all add: text_block_ok_def)
      with True JDict s show ?thesis by (simp add: Let_def)
    next
      case False
      with JDict s show ?thesis by (auto simp: Let_def)
    qed
  qed (use s in simp_all)
qed

lemma user_items_no_raise:
  "list_all tool_result_ok items \<Longrightarrow> snd (user_items [] items) = None"
proof (induction items)
  case Nil
  then show ?case by simp
next
  case (Cons item items)
  from Cons.prems have i: "tool_result_ok item" and r: "list_all tool_result_ok items"
    by simp_all
  have s: "\<And>q. snd (user_items q items) = None"
    by (subst user_items_snd) (rule Cons.IH [OF r])
  show ?case
  proof (cases item)
    case (JDict d)
    show ?thesis
    proof (cases "dict_get d ''type'' JNull = JStr ''tool_result''")
      case True
      show ?thesis
      proof (cases "dict_get d ''content'' (JStr [])")
        case (JList blocks)
        with i JDict True have "list_all text_block_ok blocks"
          by (simp add: tool_result_ok_def)
        then have "result_blocks [] blocks
                   = (map unescape (concat (map block_text blocks)), None)"
          using result_blocks_ok [of blocks "[]"] result_blocks_no_raise by simp
        with JDict True JList s show ?thesis by simp
      qed (use JDict True s in simp_all)
    next
      case False
      with JDict s show ?thesis by simp
    qed
  qed (use s in simp_all)
qed

lemma entry_assistant_ok:
  assumes "text_record_ok (JDict d)"
  shows "entry_assistant parts (JDict d) = (parts @ assistant_fragments (JDict d), None)"
proof (cases "dict_get d ''type'' JNull = JStr ''assistant''")
  case True
  with assms obtain m where m: "dict_get d ''message'' (JDict []) = JDict m"
    by (cases "dict_get d ''message'' (JDict [])") (simp_all add: text_record_ok_def is_dict_def)
  show ?thesis
    by (cases "dict_get m ''content'' (JList [])")
       (simp_all add: entry_assistant_def assistant_fragments_def message_content_def
          content_list_def True m assistant_items_eq)
next
  case False
  then show ?thesis by (simp add: entry_assistant_def assistant_fragments_def)
qed

lemma entry_user_ok:
  assumes "text_record_ok (JDict d)"
  shows "entry_user parts (JDict d) = (parts @ user_fragments (JDict d), None)"
proof (cases "dict_get d ''type'' JNull = JStr ''user''")
  case True
  with assms have a: "is_dict (dict_get d ''message'' (JDict []))"
    and l: "list_all tool_result_ok (message_content d)"
    by (simp_all add: text_record_ok_def)
  from a obtain m where m: "dict_get d ''message'' (JDict []) = JDict m"
    by (cases "dict_get d ''message'' (JDict [])") (simp_all add: is_dict_def)
  show ?thesis
  proof (cases "dict_get m ''content'' (JList [])")
    case (JList items)
    with l m have "list_all tool_result_ok items"
      by (simp add: message_content_def content_list_def)
    then have "user_items parts items = (parts @ concat (map tool_result_fragments items), None)"
      using user_items_ok user_items_no_raise by simp
    with True m JList show ?thesis
      by (simp add: entry_user_def user_fragments_def message_content_def content_list_def)
  qed (simp_all add: entry_user_def user_fragments_def message_content_def
         content_list_def True m)
next
  case False
  then show ?thesis by (simp add: entry_user_def user_fragments_def)
qed

lemma entry_tool_result_ok:
  "entry_tool_result parts (JDict d) = (parts @ legacy_fragments (JDict d), None)"
proof (cases "dict_get d ''type'' JNull = JStr ''tool_result''")
  case True
  show ?thesis
    by (cases "dict_get d ''content'' (JStr [])")
       (simp_all add: entry_tool_result_def legacy_fragments_def True)
next
  case False
  then show ?thesis by (simp add: entry_tool_result_def legacy_fragments_def)
qed

lemma extract_entry_ok:
  assumes "text_record_ok entry"
  shows "extract_entry parts entry = (parts @ entry_fragments entry, None)"
proof (cases entry)
  case (JDict d)
  with assms have r: "text_record_ok (JDict d)" by simp
  show ?thesis
    unfolding JDict extract_entry_def entry_fragments_def
    by (simp add: entry_assistant_ok [OF r] entry_user_ok [OF r] entry_tool_result_ok)
qed (use assms in \<open>simp_all add: text_record_ok_def\<close>)

lemma extract_lines_ok:
  "list_all text_line_ok ls \<Longrightarrow>
   extract_lines parts ls = parts @ concat (map entry_fragments (parsed_entries ls))"
proof (induction ls arbitrary: parts)
  case Nil
  then show ?case by (simp add: parsed_entries_def)
next
  case (Cons l ls)
  from Cons.prems have h: "text_line_ok l" and r: "list_all text_line_ok ls" by simp_all
  note ih = Cons.IH [OF r]
  show ?case
  proof (cases l)
    case (Parsed entry)
    with h have "text_record_ok entry" by (simp add: text_line_ok_def)
    then have "extract_entry parts entry = (parts @ entry_fragments entry, None)"
      by (rule extract_entry_ok)
    with Parsed ih [of "parts @ entry_fragments entry"] show ?thesis
      by (simp add: parsed_entries_def)
  next
    case Aborts
    with h show ?thesis by (simp add: text_line_ok_def)
  qed (use ih [of parts] in \<open>simp_all add: parsed_entries_def\<close>)
qed


lemma extract_lines_scanned: "extract_lines parts ls = extract_lines parts (scanned ls)"
proof (induction ls arbitrary: parts)
  case Nil
  then show ?case by (simp add: scanned_def)
next
  case (Cons l ls)
  note ih = Cons.IH [unfolded scanned_def]
  show ?case
  proof (cases l)
    case (Parsed entry)
    obtain q x where d: "extract_entry parts entry = (q, x)"
      by (cases "extract_entry parts entry")
    with Parsed ih [of q] show ?thesis by (cases x) (simp_all add: scanned_def)
  qed (use ih [of parts] in \<open>simp_all add: scanned_def\<close>)
qed

text \<open>
  Claim C7.  Let every line the loop reaches (the lines before the first one at which
  reading or parsing raises something other than \<^verbatim>\<open>JSONDecodeError\<close>) be blank, refused
  with \<^verbatim>\<open>JSONDecodeError\<close>, or a JSON object of the expected shape (\<open>text_line_ok\<close>).
  Then the reconstructed text is the newline-join, in file order, of what each record
  contributes; a \<^verbatim>\<open>tool_result\<close> item of a \<^verbatim>\<open>user\<close> record contributes the texts of the
  \<^verbatim>\<open>text\<close>-typed blocks of its content, each with every literal backslash-n replaced by
  a newline, when that content is a list, and nothing otherwise.  In the program, the
  loop over the items passes over a \<^verbatim>\<open>tool_result\<close> item whose content is a string
  without appending anything.
\<close>

theorem extract_text_tool_results:
  assumes "list_all text_line_ok (scanned ls)"
  shows "extract_text_from_jsonl (Lines ls)
           = join_parts (concat (map entry_fragments (parsed_entries (scanned ls))))
         \<and> (\<forall>parts d items s.
               dict_get d ''type'' JNull = JStr ''tool_result''
               \<and> dict_get d ''content'' (JStr []) = JStr s
               \<longrightarrow> user_items parts (JDict d # items) = user_items parts items)"
proof
  show "extract_text_from_jsonl (Lines ls)
          = join_parts (concat (map entry_fragments (parsed_entries (scanned ls))))"
    using extract_lines_ok [OF assms, of "[]"] extract_lines_scanned [of "[]" ls]
    by (simp add: extract_text_from_jsonl_def)
  show "\<forall>parts d items s.
          dict_get d ''type'' JNull = JStr ''tool_result''
          \<and> dict_get d ''content'' (JStr []) = JStr s
          \<longrightarrow> user_items parts (JDict d # items) = user_items parts items"
    by simp
qed

theorem extract_text_tool_results_witness:
  "list_all text_line_ok (scanned agent_cut_short)
   \<and> extract_text_from_jsonl (Lines agent_cut_short)
       = Inr (''first'' @ newline @ ''a'' @ newline @ ''b'')
   \<and> concat (map entry_fragments (parsed_entries (scanned agent_cut_short)))
       = [JStr ''first'', JStr (''a'' @ newline @ ''b'')]
   \<and> user_items [JStr ''first'']
         [JDict [(''type'', JStr ''tool_result''), (''content'', JStr ''plain'')]]
       = ([JStr ''first''], None)"
proof -
  have h: "list_all text_line_ok (scanned agent_cut_short)" by code_simp
  have f: "concat (map entry_fragments (parsed_entries (scanned agent_cut_short)))
           = [JStr ''first'', JStr (''a'' @ newline @ ''b'')]"
    by code_simp
  have j: "join_parts [JStr ''first'', JStr (''a'' @ newline @ ''b'')]
           = Inr (''first'' @ newline @ ''a'' @ newline @ ''b'')"
    by code_simp
  from extract_text_tool_results [OF h]
  have "extract_text_from_jsonl (Lines agent_cut_short)
          = join_parts (concat (map entry_fragments (parsed_entries (scanned agent_cut_short))))"
    by (rule conjunct1)
  with f j have "extract_text_from_jsonl (Lines agent_cut_short)
                   = Inr (''first'' @ newline @ ''a'' @ newline @ ''b'')"
    by (simp only:)
  then have r: "extract_text_from_jsonl (Lines agent_cut_short)
                  = Inr (''first'' @ newline @ ''a'' @ newline @ ''b'')" .
  have d: "dict_get [(''type'', JStr ''tool_result''), (''content'', JStr ''plain'')]
             ''type'' JNull = JStr ''tool_result''
           \<and> dict_get [(''type'', JStr ''tool_result''), (''content'', JStr ''plain'')]
               ''content'' (JStr []) = JStr ''plain''"
    by code_simp
  from extract_text_tool_results [OF h] d
  have "user_items [JStr ''first'']
          (JDict [(''type'', JStr ''tool_result''), (''content'', JStr ''plain'')] # [])
        = user_items [JStr ''first''] []"
    by blast
  then have u: "user_items [JStr ''first'']
                  [JDict [(''type'', JStr ''tool_result''), (''content'', JStr ''plain'')]]
                = ([JStr ''first''], None)"
    by simp
  show ?thesis by (intro conjI h r f u)
qed

section \<open>Properties of the learnings extraction\<close>

subsection \<open>Validation and the order of the two list forms\<close>

lemma collect_eq: "collect learnings items = learnings @ valid_items items"
proof (induction items arbitrary: learnings)
  case Nil
  then show ?case by (simp add: valid_items_def)
next
  case (Cons item items)
  show ?case
    by (simp add: Cons.IH valid_items_def valid_learning_def Let_def startswith_def)
qed

lemma section_learnings_eq:
  "section_learnings a =
     (if valid_items (findall list_flags numbered_rx (cut_section a)) \<noteq> []
      then valid_items (findall list_flags numbered_rx (cut_section a))
      else valid_items (findall list_flags bullets_rx (cut_section a)))"
  by (simp add: section_learnings_def Let_def collect_eq valid_items_def)

lemma valid_items_valid: "x \<in> set (valid_items raw) \<Longrightarrow> valid_learning x"
  by (simp add: valid_items_def)

lemma section_learnings_valid: "x \<in> set (section_learnings a) \<Longrightarrow> valid_learning x"
  by (simp add: section_learnings_eq valid_items_valid split: if_splits)

lemma first_valid_valid: "x \<in> set (first_valid secs) \<Longrightarrow> valid_learning x"
proof (induction secs)
  case Nil
  then show ?case by simp
next
  case (Cons a secs)
  then show ?case
    by (cases "section_learnings a = []") (simp_all add: Let_def section_learnings_valid)
qed

lemma learnings_of_text_valid: "x \<in> set (learnings_of_text text) \<Longrightarrow> valid_learning x"
  by (simp add: learnings_of_text_def Let_def first_valid_valid split: if_splits)

lemma extract_learnings_cases:
  assumes "extract_learnings fs p = Inr ls"
  shows "ls = [] \<or> (\<exists>text. ls = learnings_of_text text)"
proof (cases "p = []")
  case True
  with assms show ?thesis by (simp add: extract_learnings_def)
next
  case False
  show ?thesis
  proof (cases "fs p")
    case Missing
    with assms False show ?thesis by (simp add: extract_learnings_def)
  next
    case Inaccessible
    with assms False show ?thesis by (simp add: extract_learnings_def)
  next
    case Unreadable
    with assms False show ?thesis
      by (cases "extract_text_from_jsonl Unreadable") (auto simp: extract_learnings_def)
  next
    case (Lines l)
    with assms False show ?thesis
      by (cases "extract_text_from_jsonl (Lines l)") (auto simp: extract_learnings_def)
  qed
qed

lemma extract_learnings_valid:
  assumes "extract_learnings fs p = Inr ls" and "x \<in> set ls"
  shows "valid_learning x"
  using extract_learnings_cases [OF assms(1)] assms(2) learnings_of_text_valid by auto

lemma first_valid_skip:
  "\<forall>n\<in>set newer. section_learnings n = [] \<Longrightarrow> first_valid (newer @ secs) = first_valid secs"
  by (induction newer) (simp_all add: Let_def)

subsection \<open>Where a section body ends\<close>

lemma ms_next_section_newline:
  "ms no_flags next_section_rx (MState p (CHR 0x0A # cs) g) = [] \<longleftrightarrow>
   \<not> (take 2 cs = ''# '' \<or> take 3 cs = ''## '' \<or> take 4 cs = ''### '')"
proof (cases cs)
  case Nil
  then show ?thesis
    by (simp add: next_section_rx_def seqs_def no_flags_def rep_counts_def advance_def)
next
  case c1: (Cons x1 r1)
  show ?thesis
  proof (cases "x1 = CHR ''#''")
    case False
    with c1 show ?thesis
      by (simp add: next_section_rx_def seqs_def no_flags_def rep_counts_def advance_def)
  next
    case h1: True
    show ?thesis
    proof (cases r1)
      case Nil
      with c1 h1 show ?thesis
        by (simp add: next_section_rx_def seqs_def no_flags_def rep_counts_def advance_def)
    next
      case c2: (Cons x2 r2)
      show ?thesis
      proof (cases "x2 = CHR ''#''")
        case False
        with c1 h1 c2 show ?thesis
          by (simp add: next_section_rx_def seqs_def no_flags_def rep_counts_def advance_def)
      next
        case h2: True
        show ?thesis
        proof (cases r2)
          case Nil
          with c1 h1 c2 h2 show ?thesis
            by (simp add: next_section_rx_def seqs_def no_flags_def rep_counts_def advance_def)
        next
          case c3: (Cons x3 r3)
          show ?thesis
          proof (cases "x3 = CHR ''#''")
            case False
            with c1 h1 c2 h2 c3 show ?thesis
              by (simp add: next_section_rx_def seqs_def no_flags_def rep_counts_def
                    advance_def)
          next
            case h3: True
            show ?thesis
            proof (cases r3)
              case Nil
              with c1 h1 c2 h2 c3 h3 show ?thesis
                by (simp add: next_section_rx_def seqs_def no_flags_def rep_counts_def
                      advance_def)
            next
              case c4: (Cons x4 r4)
              with c1 h1 c2 h2 c3 h3 show ?thesis
                by (cases "x4 = CHR ''#''")
                   (simp_all add: next_section_rx_def seqs_def no_flags_def rep_counts_def
                      advance_def)
            qed
          qed
        qed
      qed
    qed
  qed
qed

lemma ms_next_section:
  "ms no_flags next_section_rx (MState p u g) = [] \<longleftrightarrow> \<not> starts_header u"
proof (cases u)
  case Nil
  then show ?thesis
    by (simp add: next_section_rx_def seqs_def starts_header_def startswith_def newline_def)
next
  case (Cons c cs)
  show ?thesis
  proof (cases "c = CHR 0x0A")
    case True
    have "starts_header (CHR 0x0A # cs)
          = (take 2 cs = ''# '' \<or> take 3 cs = ''## '' \<or> take 4 cs = ''### '')"
      by (simp add: starts_header_def startswith_def newline_def eval_nat_numeral)
    with True Cons ms_next_section_newline [of p cs g] show ?thesis
      by (simp only:)
  next
    case False
    with Cons show ?thesis
      by (simp add: next_section_rx_def seqs_def no_flags_def starts_header_def
            startswith_def newline_def)
  qed
qed

lemma search_from_next_section:
  "(case search_from no_flags next_section_rx pre p s of
      Some (before, e) \<Rightarrow> before | None \<Rightarrow> pre @ s) = pre @ upto_header s"
proof (induction s arbitrary: pre p)
  case Nil
  have "ms no_flags next_section_rx (MState p [] None) = []"
    by (simp add: ms_next_section starts_header_def startswith_def newline_def)
  then show ?case by simp
next
  case (Cons c cs)
  show ?case
  proof (cases "ms no_flags next_section_rx (MState p (c # cs) None)")
    case Nil
    then have "\<not> starts_header (c # cs)" by (simp add: ms_next_section)
    with Nil Cons.IH [where pre = "pre @ [c]" and p = "Some c"] show ?thesis
      by (cases "search_from no_flags next_section_rx (pre @ [c]) (Some c) cs") auto
  next
    case (Cons e es)
    then have "starts_header (c # cs)" using ms_next_section [of p "c # cs" None] by simp
    with Cons show ?thesis by simp
  qed
qed

lemma cut_section_eq: "cut_section s = upto_header s"
  using search_from_next_section [where pre = "[]" and p = None and s = s]
  by (simp add: cut_section_def search_def split: option.splits prod.splits)

lemma upto_header_prefix:
  "\<exists>after. s = upto_header s @ after \<and> (after = [] \<or> starts_header after)"
proof (induction s)
  case Nil
  then show ?case by simp
next
  case (Cons c cs)
  show ?case
  proof (cases "starts_header (c # cs)")
    case True
    then show ?thesis by simp
  next
    case False
    with Cons.IH show ?thesis by auto
  qed
qed

lemma upto_header_no_header:
  "i < length (upto_header s) \<Longrightarrow> \<not> starts_header (drop i s)"
proof (induction s arbitrary: i)
  case Nil
  then show ?case by simp
next
  case (Cons c cs)
  show ?case
  proof (cases "starts_header (c # cs)")
    case True
    with Cons.prems show ?thesis by simp
  next
    case False
    with Cons show ?thesis by (cases i) simp_all
  qed
qed


subsection \<open>The claims on the learnings extraction\<close>

text \<open>
  Claim C2.  Let the reconstructed text of the transcript hold several recognized
  headers, and let \<open>chosen\<close> be the text after one of them whose section yields at least
  one valid item, while every section opened by a later header yields none.  Then
  \<open>extract_learnings\<close> returns the items of that section: the sections are tried from
  the last header backward, a section without valid items passes the turn to the next
  older one, and the sections before the chosen one play no part.
\<close>

theorem extract_learnings_most_recent_section:
  assumes "p \<noteq> []"
    and "fs p = Lines ls"
    and "extract_text_from_jsonl (Lines ls) = Inr reconstructed"
    and "strip reconstructed \<noteq> []"
    and "finditer_ends header_flags header_pattern reconstructed = older @ [chosen] @ newer"
    and "section_learnings chosen \<noteq> []"
    and "\<forall>n\<in>set newer. section_learnings n = []"
  shows "extract_learnings fs p = Inr (section_learnings chosen)"
proof -
  have n: "\<forall>n\<in>set (rev newer). section_learnings n = []" using assms(7) by simp
  have "first_valid (rev (older @ [chosen] @ newer)) = first_valid (chosen # rev older)"
    using first_valid_skip [OF n, of "chosen # rev older"] by simp
  also have "\<dots> = section_learnings chosen" using assms(6) by (simp add: Let_def)
  finally have "learnings_of_text reconstructed = section_learnings chosen"
    using assms(4,5) by (simp add: learnings_of_text_def Let_def)
  with assms(1,2,3) show ?thesis by (simp add: extract_learnings_def)
qed

theorem extract_learnings_most_recent_section_witness:
  "extract_text_from_jsonl (Lines (transcript_of three_sections)) = Inr three_sections
   \<and> strip three_sections \<noteq> []
   \<and> finditer_ends header_flags header_pattern three_sections
       = [body_old @ ''## Learnings'' @ body_mid @ ''## Learnings'' @ body_new]
         @ [body_mid @ ''## Learnings'' @ body_new] @ [body_new]
   \<and> section_learnings body_new = []
   \<and> section_learnings (body_old @ ''## Learnings'' @ body_mid @ ''## Learnings'' @ body_new)
       = [''The oldest section is ignored.'']
   \<and> extract_learnings (one_file ''agent.jsonl'' (transcript_of three_sections)) ''agent.jsonl''
       = Inr [''The middle section is returned.'']"
proof -
  have f: "one_file ''agent.jsonl'' (transcript_of three_sections) ''agent.jsonl''
           = Lines (transcript_of three_sections)"
    by (simp add: one_file_def)
  have t: "extract_text_from_jsonl (Lines (transcript_of three_sections)) = Inr three_sections"
    by code_simp
  have s: "strip three_sections \<noteq> []" by code_simp
  have m: "finditer_ends header_flags header_pattern three_sections
           = [body_old @ ''## Learnings'' @ body_mid @ ''## Learnings'' @ body_new]
             @ [body_mid @ ''## Learnings'' @ body_new] @ [body_new]"
    by code_simp
  have c: "section_learnings (body_mid @ ''## Learnings'' @ body_new)
           = [''The middle section is returned.'']"
    by code_simp
  have e: "section_learnings body_new = []" by code_simp
  have b: "section_learnings (body_old @ ''## Learnings'' @ body_mid @ ''## Learnings'' @ body_new)
           = [''The oldest section is ignored.'']"
    by code_simp
  have c': "section_learnings (body_mid @ ''## Learnings'' @ body_new) \<noteq> []"
    unfolding c by simp
  have e': "\<forall>n\<in>set [body_new]. section_learnings n = []" using e by simp
  have "extract_learnings (one_file ''agent.jsonl'' (transcript_of three_sections)) ''agent.jsonl''
        = Inr (section_learnings (body_mid @ ''## Learnings'' @ body_new))"
    using extract_learnings_most_recent_section
            [where p = "''agent.jsonl''"
               and fs = "one_file ''agent.jsonl'' (transcript_of three_sections)"
               and ls = "transcript_of three_sections" and reconstructed = three_sections
               and older = "[body_old @ ''## Learnings'' @ body_mid @ ''## Learnings'' @ body_new]"
               and chosen = "body_mid @ ''## Learnings'' @ body_new"
               and newer = "[body_new]"]
          f t s m c' e'
    by simp
  then have r: "extract_learnings (one_file ''agent.jsonl'' (transcript_of three_sections))
                  ''agent.jsonl'' = Inr [''The middle section is returned.'']"
    unfolding c .
  show ?thesis by (intro conjI t s m e b r)
qed

text \<open>
  Claim C3.  Every string \<open>extract_learnings\<close> returns has at least 20 characters and
  does not begin with \<^verbatim>\<open>[\<close>.  The loop over the raw items of a list keeps, in order,
  exactly the cleaned items that pass both tests: an item that fails is left out and the
  others stay.
\<close>

theorem extract_learnings_items_valid:
  "(\<forall>ls. extract_learnings fs p = Inr ls \<longrightarrow>
      (\<forall>x\<in>set ls. 20 \<le> length x \<and> take 1 x \<noteq> ''[''))
   \<and> collect [] raw
       = filter (\<lambda>x. 20 \<le> length x \<and> take 1 x \<noteq> ''['') (map clean_markdown raw)"
proof (intro conjI allI impI ballI)
  fix ls x
  assume "extract_learnings fs p = Inr ls" and "x \<in> set ls"
  then have "valid_learning x" by (rule extract_learnings_valid)
  then show "20 \<le> length x" and "take 1 x \<noteq> ''[''"
    by (simp_all add: valid_learning_def MIN_LEARNING_LENGTH_def)
next
  have "valid_learning = (\<lambda>x. 20 \<le> length x \<and> take 1 x \<noteq> ''['')"
    by (simp add: valid_learning_def MIN_LEARNING_LENGTH_def fun_eq_iff)
  then show "collect [] raw
             = filter (\<lambda>x. 20 \<le> length x \<and> take 1 x \<noteq> ''['') (map clean_markdown raw)"
    by (simp add: collect_eq valid_items_def)
qed

theorem extract_learnings_items_valid_witness:
  "findall list_flags numbered_rx
     (newline @ ''1. First item is long enough.'' @ newline @ ''2. short''
      @ newline @ ''3. Third item is long enough.'')
     = [''First item is long enough.'', ''short'', ''Third item is long enough.'']
   \<and> extract_learnings (one_file ''agent.jsonl'' (transcript_of three_items)) ''agent.jsonl''
       = Inr [''First item is long enough.'', ''Third item is long enough.'']
   \<and> 20 \<le> length ''First item is long enough.''
   \<and> take 1 ''Third item is long enough.'' \<noteq> ''[''
   \<and> collect [] [''First item is long enough.'', ''short'', ''Third item is long enough.'']
       = [''First item is long enough.'', ''Third item is long enough.'']"
proof -
  have a: "findall list_flags numbered_rx
             (newline @ ''1. First item is long enough.'' @ newline @ ''2. short''
              @ newline @ ''3. Third item is long enough.'')
           = [''First item is long enough.'', ''short'', ''Third item is long enough.'']"
    by code_simp
  have r: "extract_learnings (one_file ''agent.jsonl'' (transcript_of three_items)) ''agent.jsonl''
           = Inr [''First item is long enough.'', ''Third item is long enough.'']"
    by code_simp
  have k: "map clean_markdown
             [''First item is long enough.'', ''short'', ''Third item is long enough.'']
           = [''First item is long enough.'', ''short'', ''Third item is long enough.'']"
    by code_simp
  note h = extract_learnings_items_valid
             [of "one_file ''agent.jsonl'' (transcript_of three_items)" "''agent.jsonl''"
                 "[''First item is long enough.'', ''short'', ''Third item is long enough.'']"]
  from h r have v: "\<forall>x\<in>set [''First item is long enough.'', ''Third item is long enough.''].
                      20 \<le> length x \<and> take 1 x \<noteq> ''[''"
    by blast
  from v have v1: "20 \<le> length ''First item is long enough.''" by simp
  from v have v2: "take 1 ''Third item is long enough.'' \<noteq> ''[''" by simp
  from h have "collect [] [''First item is long enough.'', ''short'', ''Third item is long enough.'']
        = filter (\<lambda>x. 20 \<le> length x \<and> take 1 x \<noteq> ''['')
            (map clean_markdown
               [''First item is long enough.'', ''short'', ''Third item is long enough.''])"
    by (rule conjunct2)
  then have c: "collect [] [''First item is long enough.'', ''short'', ''Third item is long enough.'']
        = [''First item is long enough.'', ''Third item is long enough.'']"
    unfolding k by simp
  show ?thesis by (intro conjI a r v1 v2 c)
qed

text \<open>
  Claim C4.  Within one section the learnings are the valid items of the numbered parse
  when there is at least one; otherwise, and so also when numbered markers are present
  but none of their items is valid, they are the valid items of the bulleted parse.
\<close>

theorem numbered_items_before_bullets:
  "(valid_items (findall list_flags numbered_rx (cut_section a)) \<noteq> [] \<longrightarrow>
      section_learnings a = valid_items (findall list_flags numbered_rx (cut_section a)))
   \<and> (valid_items (findall list_flags numbered_rx (cut_section a)) = [] \<longrightarrow>
      section_learnings a = valid_items (findall list_flags bullets_rx (cut_section a)))"
  by (simp add: section_learnings_eq)

theorem numbered_items_before_bullets_witness:
  "findall list_flags numbered_rx (cut_section numbered_then_bullet)
     = [''short'', ''[placeholder text of an item]'']
   \<and> valid_items (findall list_flags numbered_rx (cut_section numbered_then_bullet)) = []
   \<and> valid_items (findall list_flags bullets_rx (cut_section numbered_then_bullet))
       = [''A bullet item that is long enough.'']
   \<and> section_learnings numbered_then_bullet = [''A bullet item that is long enough.'']
   \<and> valid_items (findall list_flags numbered_rx (cut_section (drop 12 three_items)))
       = [''First item is long enough.'', ''Third item is long enough.'']
   \<and> section_learnings (drop 12 three_items)
       = [''First item is long enough.'', ''Third item is long enough.'']"
proof -
  have a: "findall list_flags numbered_rx (cut_section numbered_then_bullet)
           = [''short'', ''[placeholder text of an item]'']"
    by code_simp
  have n: "valid_items (findall list_flags numbered_rx (cut_section numbered_then_bullet)) = []"
    unfolding a by code_simp
  have b: "valid_items (findall list_flags bullets_rx (cut_section numbered_then_bullet))
           = [''A bullet item that is long enough.'']"
    by code_simp
  have r: "section_learnings numbered_then_bullet = [''A bullet item that is long enough.'']"
    using numbered_items_before_bullets [of numbered_then_bullet] n b by simp
  have m: "valid_items (findall list_flags numbered_rx (cut_section (drop 12 three_items)))
           = [''First item is long enough.'', ''Third item is long enough.'']"
    by code_simp
  have m': "valid_items (findall list_flags numbered_rx (cut_section (drop 12 three_items))) \<noteq> []"
    unfolding m by simp
  have q: "section_learnings (drop 12 three_items)
           = [''First item is long enough.'', ''Third item is long enough.'']"
    using numbered_items_before_bullets [of "drop 12 three_items"] m' m by simp
  show ?thesis by (intro conjI a n b r m q)
qed

text \<open>
  Claim C5, as stated: the body of a section runs to the next header of the level of
  the header that opened it or less, so that a level-3 header line does not end the
  body of a section opened by a level-2 header.  It fails: the program cuts the body at
  the first line break followed by one to three \<^verbatim>\<open>#\<close> and a space.  In the text after a
  level-2 header that holds an item, a \<^verbatim>\<open>### Note\<close> line and a second item, the body the
  program takes ends before \<^verbatim>\<open>### Note\<close>, and only the first item is returned.
\<close>

theorem level_3_header_ends_section:
  "cut_section nested_section = newline @ ''1. Always validate the input.''
   \<and> section_body_claimed 2 nested_section = nested_section
   \<and> cut_section nested_section \<noteq> section_body_claimed 2 nested_section
   \<and> learnings_of_text (''## Key Learnings:'' @ nested_section)
       = [''Always validate the input.'']"
  by code_simp

text \<open>
  Claim C5, amended: the body of a section is the text after the header up to the first
  line break that is followed by one, two or three \<^verbatim>\<open>#\<close> and a space, or up to the end
  of the text: what follows the body is empty or starts with such a header line, and no
  such header line starts inside the body.
\<close>

theorem section_ends_at_any_header:
  "cut_section s = upto_header s
   \<and> (\<exists>after. s = cut_section s @ after \<and> (after = [] \<or> starts_header after))
   \<and> (\<forall>i<length (cut_section s). \<not> starts_header (drop i s))"
  using upto_header_prefix [of s] upto_header_no_header [of _ s]
  by (simp add: cut_section_eq)

theorem section_ends_at_any_header_witness:
  "cut_section nested_section = newline @ ''1. Always validate the input.''
   \<and> 0 < length (cut_section nested_section)
   \<and> \<not> starts_header (drop 0 nested_section)
   \<and> starts_header (drop (length (cut_section nested_section)) nested_section)"
proof -
  have c: "cut_section nested_section = newline @ ''1. Always validate the input.''"
    by code_simp
  have l: "0 < length (cut_section nested_section)" unfolding c by (simp add: newline_def)
  from section_ends_at_any_header [of nested_section]
  have "\<forall>i<length (cut_section nested_section). \<not> starts_header (drop i nested_section)"
    by blast
  with l have n: "\<not> starts_header (drop 0 nested_section)" by blast
  have h: "starts_header (drop (length (cut_section nested_section)) nested_section)"
    by code_simp
  show ?thesis by (intro conjI c l n h)
qed

end
